theory Spec2Isabelle
  imports Complex_Main "HOL-Library.Word" "HOL-Library.AList"
begin

section \<open>The Path ORAM engine of \<^verbatim>\<open>path_oram.h\<close>\<close>

text \<open>
  The class template \<^verbatim>\<open>PathORAM<HeightL, BlockSizeB, BucketSizeZ>\<close> is embedded with its
  three template parameters as the leading arguments \<open>L\<close>, \<open>B\<close> and \<open>Z\<close> of every
  function.  Values of type \<^verbatim>\<open>size_t\<close> and \<^verbatim>\<open>uint64_t\<close> are natural numbers; where the
  source computes on them modulo \<open>2 ^ 64\<close> the reduction is written out (\<open>wrap64\<close>).
\<close>

subsection \<open>Data\<close>

type_synonym Block = "8 word list"

text \<open>A value-initialised \<^verbatim>\<open>std::array<uint8_t, BlockSizeB>\<close>.\<close>

definition zero_block :: "nat \<Rightarrow> Block" where
  "zero_block B = replicate B 0"

text \<open>\<^verbatim>\<open>std::numeric_limits<uint64_t>::max()\<close>\<close>

definition invalid_block :: nat where
  "invalid_block = 2 ^ 64 - 1"

text \<open>The field \<^verbatim>\<open>id\<close> of the source is \<open>blk_id\<close> here (\<open>id\<close> is the identity of HOL).\<close>

record IDBlock =
  blk_id :: nat
  data :: Block

text \<open>The default member initialisers of \<^verbatim>\<open>IDBlock\<close>.\<close>

definition default_IDBlock :: "nat \<Rightarrow> IDBlock" where
  "default_IDBlock B = \<lparr>blk_id = invalid_block, data = zero_block B\<rparr>"

type_synonym Bucket = "IDBlock list"

datatype Op = Read | Write

datatype error = OutOfRange

definition wrap64 :: "nat \<Rightarrow> nat" where
  "wrap64 n = n mod 2 ^ 64"

text \<open>
  \<^verbatim>\<open>bucket_count = (1ull << (HeightL + 1)) - 1\<close>.  The shift is defined for
  \<open>HeightL + 1 < 64\<close> only, and an undefined shift in the initialiser of a
  \<^verbatim>\<open>constexpr\<close> member does not compile: the class exists for \<open>L \<le> 62\<close>, where the
  value below is the value of the source.
\<close>

definition bucket_count :: "nat \<Rightarrow> nat" where
  "bucket_count L = 2 ^ (L + 1) - 1"

text \<open>\<^verbatim>\<open>block_count_N = BucketSizeZ * bucket_count\<close>, a product of \<^verbatim>\<open>uint64_t\<close>.\<close>

definition block_count_N :: "nat \<Rightarrow> nat \<Rightarrow> nat" where
  "block_count_N L Z = wrap64 (Z * bucket_count L)"

text \<open>The number of leaves, as the specification names it.\<close>

definition leaf_count :: "nat \<Rightarrow> nat" where
  "leaf_count L = 2 ^ L"

subsection \<open>The random generator\<close>

text \<open>
  \<^verbatim>\<open>std::mt19937\<close> and \<^verbatim>\<open>std::uniform_int_distribution\<close> belong to the C++ library,
  not to the repository.  The state of the generator is represented by the sequence of
  values that the successive calls \<^verbatim>\<open>leaf_dist(mt)\<close> will return from it: the generator is
  deterministic, so its state fixes that sequence, and one call returns the head and
  leaves the tail.  The parameters of the distribution are those of line 236,
  \<^verbatim>\<open>leaf_dist{0, bucket_count/2}\<close>; the library guarantees that every value returned lies
  between them, both included (\<open>mt_in_range\<close>), with the probability mass
  \<open>uniform_int_pmf\<close>.
\<close>

definition leaf_dist_a :: nat where
  "leaf_dist_a = 0"

definition leaf_dist_b :: "nat \<Rightarrow> nat" where
  "leaf_dist_b L = bucket_count L div 2"

text \<open>
  The discrete probability function of \<^verbatim>\<open>std::uniform_int_distribution{a, b}\<close> in the
  C++ standard: \<open>P(i | a, b) = 1 / (b - a + 1)\<close> for \<open>a \<le> i \<le> b\<close>.
\<close>

definition uniform_int_pmf :: "nat \<Rightarrow> nat \<Rightarrow> nat \<Rightarrow> real" where
  "uniform_int_pmf a b i = (if a \<le> i \<and> i \<le> b then 1 / real (b - a + 1) else 0)"

definition leaf_dist_pmf :: "nat \<Rightarrow> nat \<Rightarrow> real" where
  "leaf_dist_pmf L i = uniform_int_pmf leaf_dist_a (leaf_dist_b L) i"

subsection \<open>The engine state\<close>

text \<open>
  The observable effects of an access are recorded in the field \<open>trace\<close>: the rewrite of
  a position-map entry and every read and write of an element of \<^verbatim>\<open>buckets\<close>, in the
  order in which the code performs them.  The field is not a member of the class.
\<close>

datatype event = Remap nat | BucketRead nat | BucketWrite nat

text \<open>
  \<^verbatim>\<open>std::map<size_t, Block>\<close> is an association list with its keys in increasing order,
  the order in which the map is iterated.
\<close>

type_synonym Stash = "(nat \<times> Block) list"

record PathORAM =
  buckets :: "Bucket list"
  position_map :: "nat list"
  stash :: Stash
  mt :: "nat \<Rightarrow> nat"
  trace :: "event list"

subsection \<open>Operations of \<^verbatim>\<open>std::map\<close> used on the stash\<close>

text \<open>\<^verbatim>\<open>stash.emplace(k, v)\<close> inserts only when the key is absent.\<close>

definition emplace :: "nat \<Rightarrow> Block \<Rightarrow> Stash \<Rightarrow> Stash" where
  "emplace k v m = (if map_of m k = None then insort_key fst (k, v) m else m)"

text \<open>
  \<^verbatim>\<open>stash[k]\<close> read: the element, created value-initialised when the key is absent.
\<close>

definition stash_index :: "nat \<Rightarrow> nat \<Rightarrow> Stash \<Rightarrow> Block \<times> Stash" where
  "stash_index B k m =
     (case map_of m k of
        Some v \<Rightarrow> (v, m)
      | None \<Rightarrow> (zero_block B, insort_key fst (k, zero_block B) m))"

text \<open>\<^verbatim>\<open>stash[k] = v\<close>\<close>

definition stash_assign :: "nat \<Rightarrow> nat \<Rightarrow> Block \<Rightarrow> Stash \<Rightarrow> Stash" where
  "stash_assign B k v m = AList.update k v (snd (stash_index B k m))"

text \<open>\<^verbatim>\<open>stash.erase(k)\<close>\<close>

definition erase :: "nat \<Rightarrow> Stash \<Rightarrow> Stash" where
  "erase k m = AList.delete k m"

subsection \<open>Path indexing\<close>

text \<open>One iteration of the loop of \<^verbatim>\<open>getNodeOnPath\<close>: \<^verbatim>\<open>leaf = ((leaf+1) / 2) - 1\<close>.\<close>

definition parent_step :: "nat \<Rightarrow> nat" where
  "parent_step leaf = wrap64 (wrap64 (leaf + 1) div 2 + (2 ^ 64 - 1))"

fun climb :: "nat \<Rightarrow> nat \<Rightarrow> nat" where
  "climb 0 leaf = leaf"
| "climb (Suc k) leaf = climb k (parent_step leaf)"

text \<open>
  The loop runs for \<open>l = HeightL - 1\<close> down to \<open>height\<close>: \<open>L - height\<close> iterations, none
  when \<open>height \<ge> L\<close>.
\<close>

definition getNodeOnPath :: "nat \<Rightarrow> nat \<Rightarrow> nat \<Rightarrow> nat" where
  "getNodeOnPath L leaf height =
     climb (L - height) (wrap64 (leaf + bucket_count L div 2))"

subsection \<open>Path manipulation\<close>

text \<open>\<^verbatim>\<open>return leaf_dist(mt);\<close> the next value of the generator, and the state after it.\<close>

definition randomPath :: "PathORAM \<Rightarrow> nat \<times> PathORAM" where
  "randomPath s = (mt s 0, s\<lparr>mt := \<lambda>i. mt s (Suc i)\<rparr>)"

text \<open>The inner loop of \<^verbatim>\<open>readPath\<close>: the valid blocks of one bucket go to the stash.\<close>

definition readBucket :: "Bucket \<Rightarrow> Stash \<Rightarrow> Stash" where
  "readBucket bucket st =
     fold (\<lambda>block m. if blk_id block \<noteq> invalid_block
                      then emplace (blk_id block) (data block) m else m) bucket st"

text \<open>One iteration of the outer loop of \<^verbatim>\<open>readPath\<close>, at level \<open>l\<close>.\<close>

definition readPath_level :: "nat \<Rightarrow> nat \<Rightarrow> nat \<Rightarrow> PathORAM \<Rightarrow> PathORAM" where
  "readPath_level L pos l s =
     s\<lparr>stash := readBucket (buckets s ! getNodeOnPath L pos l) (stash s),
       trace := trace s @ [BucketRead (getNodeOnPath L pos l)]\<rparr>"

text \<open>\<^verbatim>\<open>for (uint8_t l = 0; l <= HeightL; ++l)\<close>\<close>

definition readPath :: "nat \<Rightarrow> nat \<Rightarrow> PathORAM \<Rightarrow> PathORAM" where
  "readPath L pos s = fold (readPath_level L pos) [0..<Suc L] s"

text \<open>
  The identifiers in the stash, in the order of its keys, whose leaf in the position map
  has the same node at \<open>height\<close> as \<open>leaf\<close>.
\<close>

definition getIntersectingBlocks :: "nat \<Rightarrow> nat \<Rightarrow> nat \<Rightarrow> PathORAM \<Rightarrow> nat list" where
  "getIntersectingBlocks L leaf height s =
     (let node = getNodeOnPath L leaf height
      in filter (\<lambda>block_id. getNodeOnPath L (position_map s ! block_id) height = node)
           (map fst (stash s)))"

text \<open>The body of the first inner loop of \<^verbatim>\<open>writePath\<close>, at slot \<open>z\<close>.\<close>

definition fill_slot :: "nat \<Rightarrow> nat list \<Rightarrow> nat \<Rightarrow> Bucket \<times> Stash \<Rightarrow> Bucket \<times> Stash" where
  "fill_slot B valid_blocks z bs =
     (let block_id = valid_blocks ! z;
          (d, st1) = stash_index B block_id (snd bs)
      in ((fst bs)[z := \<lparr>blk_id = block_id, data = d\<rparr>], erase block_id st1))"

text \<open>The body of the second inner loop of \<^verbatim>\<open>writePath\<close>, at slot \<open>z\<close>.\<close>

definition invalidate_slot :: "nat \<Rightarrow> Bucket \<Rightarrow> Bucket" where
  "invalidate_slot z bucket = bucket[z := (bucket ! z)\<lparr>blk_id := invalid_block\<rparr>]"

text \<open>
  One iteration of the outer loop of \<^verbatim>\<open>writePath\<close>, at level \<open>l\<close>: a fresh bucket of default
  blocks, the two inner loops, and the assignment to \<^verbatim>\<open>buckets[node]\<close>.
\<close>

definition writePath_level :: "nat \<Rightarrow> nat \<Rightarrow> nat \<Rightarrow> nat \<Rightarrow> nat \<Rightarrow> PathORAM \<Rightarrow> PathORAM" where
  "writePath_level L B Z pos l s =
     (let node = getNodeOnPath L pos l;
          valid_blocks = getIntersectingBlocks L pos l s;
          bs = fold (fill_slot B valid_blocks) [0..<min (length valid_blocks) Z]
                 (replicate Z (default_IDBlock B), stash s);
          bucket = fold invalidate_slot [length valid_blocks..<Z] (fst bs)
      in s\<lparr>buckets := (buckets s)[node := bucket],
           stash := snd bs,
           trace := trace s @ [BucketWrite node]\<rparr>)"

text \<open>\<^verbatim>\<open>for (int16_t l = HeightL; l >= 0; --l)\<close>\<close>

definition writePath :: "nat \<Rightarrow> nat \<Rightarrow> nat \<Rightarrow> nat \<Rightarrow> PathORAM \<Rightarrow> PathORAM" where
  "writePath L B Z pos s = fold (writePath_level L B Z pos) (rev [0..<Suc L]) s"

subsection \<open>The public interface\<close>

text \<open>\<^verbatim>\<open>position_map[blk] = randomPath();\<close>\<close>

definition remap :: "nat \<Rightarrow> PathORAM \<Rightarrow> PathORAM" where
  "remap blk s =
     (let (r, s1) = randomPath s
      in s1\<lparr>position_map := (position_map s1)[blk := r],
            trace := trace s1 @ [Remap blk]\<rparr>)"

text \<open>
  The \<^verbatim>\<open>switch\<close> of \<^verbatim>\<open>access\<close>: \<^verbatim>\<open>b = stash[blk]\<close> for a read, \<^verbatim>\<open>stash[blk] = b\<close> for a write.
  The first component is the value of \<^verbatim>\<open>b\<close> afterwards.
\<close>

definition stash_op :: "nat \<Rightarrow> Op \<Rightarrow> nat \<Rightarrow> Block \<Rightarrow> PathORAM \<Rightarrow> Block \<times> PathORAM" where
  "stash_op B op blk b s =
     (case op of
        Read \<Rightarrow> (let (v, st) = stash_index B blk (stash s) in (v, s\<lparr>stash := st\<rparr>))
      | Write \<Rightarrow> (b, s\<lparr>stash := stash_assign B blk b (stash s)\<rparr>))"

text \<open>
  \<^verbatim>\<open>access\<close> returns the exception it throws or the final value of its in/out
  argument \<^verbatim>\<open>b\<close>, with the state of the engine when it returns or throws.
\<close>

definition access :: "nat \<Rightarrow> nat \<Rightarrow> nat \<Rightarrow> Op \<Rightarrow> nat \<Rightarrow> Block \<Rightarrow> PathORAM
    \<Rightarrow> (error + Block) \<times> PathORAM" where
  "access L B Z op blk b s =
     (if blk \<ge> block_count_N L Z then (Inl OutOfRange, s)
      else
        let pos = position_map s ! blk;
            s1 = remap blk s;
            s2 = readPath L pos s1;
            (b', s3) = stash_op B op blk b s2;
            s4 = writePath L B Z pos s3
        in (Inr b', s4))"

text \<open>
  \<^verbatim>\<open>read\<close> passes a default-initialised local block, whose bytes are indeterminate;
  \<^verbatim>\<open>access\<close> overwrites it without reading it (\<open>access_Read_arg\<close> below).
\<close>

definition read :: "nat \<Rightarrow> nat \<Rightarrow> nat \<Rightarrow> nat \<Rightarrow> PathORAM \<Rightarrow> (error + Block) \<times> PathORAM" where
  "read L B Z blk s = access L B Z Read blk (zero_block B) s"

text \<open>\<^verbatim>\<open>write\<close> of the source (\<open>write\<close> is a command of Isar).\<close>

definition write_blk :: "nat \<Rightarrow> nat \<Rightarrow> nat \<Rightarrow> nat \<Rightarrow> Block \<Rightarrow> PathORAM \<Rightarrow> (error + unit) \<times> PathORAM" where
  "write_blk L B Z blk b s =
     (case access L B Z Write blk b s of
        (Inl e, s') \<Rightarrow> (Inl e, s')
      | (Inr _, s') \<Rightarrow> (Inr (), s'))"

subsection \<open>Construction\<close>

text \<open>One iteration of the loop of the constructor: \<^verbatim>\<open>position_map[i] = randomPath();\<close>\<close>

definition init_position :: "nat \<Rightarrow> PathORAM \<Rightarrow> PathORAM" where
  "init_position i s =
     (let (r, s1) = randomPath s in s1\<lparr>position_map := (position_map s1)[i := r]\<rparr>)"

text \<open>
  The only constructor that builds an engine, \<^verbatim>\<open>PathORAM()\<close>, takes no argument: the
  generator is seeded with \<^verbatim>\<open>rd()\<close>, a value of \<^verbatim>\<open>std::random_device\<close>.  \<open>seeded\<close> is the
  state of \<^verbatim>\<open>mt\<close> after that seeding.  The elements of \<^verbatim>\<open>position_map\<close> are
  indeterminate before the loop assigns them; they are \<open>0\<close> here.
\<close>

definition PathORAM_ctor :: "nat \<Rightarrow> nat \<Rightarrow> nat \<Rightarrow> (nat \<Rightarrow> nat) \<Rightarrow> PathORAM" where
  "PathORAM_ctor L B Z seeded =
     fold init_position [0..<block_count_N L Z]
       \<lparr>buckets = replicate (bucket_count L) (replicate Z (default_IDBlock B)),
        position_map = replicate (block_count_N L Z) 0,
        stash = [],
        mt = seeded,
        trace = []\<rparr>"

subsection \<open>Well-formed generator states\<close>

text \<open>
  The guarantee of \<^verbatim>\<open>std::uniform_int_distribution\<close>: every value that \<^verbatim>\<open>leaf_dist(mt)\<close>
  will return lies between the two parameters of the distribution.
\<close>

definition mt_in_range :: "nat \<Rightarrow> (nat \<Rightarrow> nat) \<Rightarrow> bool" where
  "mt_in_range L g = (\<forall>i. leaf_dist_a \<le> g i \<and> g i \<le> leaf_dist_b L)"

subsection \<open>A small engine\<close>

text \<open>
  An engine state of \<^verbatim>\<open>PathORAM<1, 1, 1>\<close> (three buckets of one slot, blocks of one byte,
  \<open>N = 3\<close>), on which the theorems below are instantiated.
\<close>

definition demo_state :: PathORAM where
  "demo_state =
     \<lparr>buckets = replicate 3 [default_IDBlock 1],
      position_map = [0, 1, 0],
      stash = [],
      mt = (\<lambda>i. i mod 2),
      trace = []\<rparr>"

subsection \<open>Invariants\<close>

text \<open>
  The keys of the stash are distinct and increasing, as those of a \<^verbatim>\<open>std::map\<close> are.
\<close>

definition stash_ok :: "Stash \<Rightarrow> bool" where
  "stash_ok m \<longleftrightarrow> distinct (map fst m) \<and> sorted (map fst m)"

text \<open>Slot \<open>z\<close> of bucket \<open>n\<close> of the tree holds the block with identifier \<open>i\<close>.\<close>

definition holds_at :: "Bucket list \<Rightarrow> nat \<Rightarrow> nat \<Rightarrow> nat \<Rightarrow> bool" where
  "holds_at bks n z i \<longleftrightarrow>
     n < length bks \<and> z < length (bks ! n) \<and> blk_id (bks ! n ! z) = i \<and> i \<noteq> invalid_block"

text \<open>
  The state of the tree between the two halves of an access.  The buckets in \<open>D\<close> have
  been copied to the stash and are waiting to be rewritten; they do not count.  Every
  block held by another bucket has an identifier below \<open>N\<close>, is absent from the stash,
  lies on the path of its leaf in the position map, and is held by no other slot.
\<close>

definition tree_ok :: "nat \<Rightarrow> nat \<Rightarrow> nat set \<Rightarrow> Bucket list \<Rightarrow> nat list \<Rightarrow> Stash \<Rightarrow> bool" where
  "tree_ok L N D bks pm st \<longleftrightarrow>
     (\<forall>n z i. n \<notin> D \<and> holds_at bks n z i \<longrightarrow>
        i < N \<and> map_of st i = None
        \<and> (\<exists>h\<le>L. n = getNodeOnPath L (pm ! i) h)
        \<and> (\<forall>n' z'. n' \<notin> D \<and> holds_at bks n' z' i \<longrightarrow> n' = n \<and> z' = z))"

text \<open>The payload \<open>d\<close> is what the engine holds for \<open>i\<close>, in the stash or in the tree.\<close>

definition content :: "nat set \<Rightarrow> Bucket list \<Rightarrow> Stash \<Rightarrow> nat \<Rightarrow> Block \<Rightarrow> bool" where
  "content D bks st i d \<longleftrightarrow>
     map_of st i = Some d
     \<or> (\<exists>n z. n \<notin> D \<and> holds_at bks n z i \<and> data (bks ! n ! z) = d)"

text \<open>
  The same, with the stash: its keys are distinct, increasing and below \<open>N\<close>.
\<close>

definition mid_inv :: "nat \<Rightarrow> nat \<Rightarrow> nat set \<Rightarrow> Bucket list \<Rightarrow> nat list \<Rightarrow> Stash \<Rightarrow> bool" where
  "mid_inv L N D bks pm st \<longleftrightarrow>
     tree_ok L N D bks pm st \<and> stash_ok st \<and> (\<forall>k d. map_of st k = Some d \<longrightarrow> k < N)"

text \<open>The invariant of the engine between two accesses.\<close>

definition oram_inv :: "nat \<Rightarrow> nat \<Rightarrow> PathORAM \<Rightarrow> bool" where
  "oram_inv L Z s \<longleftrightarrow>
     length (buckets s) = bucket_count L
     \<and> length (position_map s) = block_count_N L Z
     \<and> (\<forall>i < block_count_N L Z. position_map s ! i < leaf_count L)
     \<and> mt_in_range L (mt s)
     \<and> mid_inv L (block_count_N L Z) {} (buckets s) (position_map s) (stash s)"

text \<open>The engine holds the payload \<open>d\<close> for the identifier \<open>i\<close>.\<close>

definition stored :: "PathORAM \<Rightarrow> nat \<Rightarrow> Block \<Rightarrow> bool" where
  "stored s i d = content {} (buckets s) (stash s) i d"

subsection \<open>Sequences of accesses and the memory they implement\<close>

text \<open>
  \<open>exec_ops\<close> performs a list of calls of \<^verbatim>\<open>access\<close> in order, as the loops of
  \<^verbatim>\<open>main.cpp\<close> do with \<^verbatim>\<open>write\<close> and \<^verbatim>\<open>read\<close>; a call that throws leaves the engine as
  it was.  \<open>abs_exec\<close> is the memory that the same calls describe: a partial map from
  identifiers to payloads, in which a read of an absent identifier creates the zero
  block.
\<close>

definition exec_ops :: "nat \<Rightarrow> nat \<Rightarrow> nat \<Rightarrow> (Op \<times> nat \<times> Block) list \<Rightarrow> PathORAM \<Rightarrow> PathORAM" where
  "exec_ops L B Z ops s = fold (\<lambda>(op, blk, b) s'. snd (access L B Z op blk b s')) ops s"

definition abs_step :: "nat \<Rightarrow> Op \<Rightarrow> nat \<Rightarrow> Block \<Rightarrow> (nat \<rightharpoonup> Block) \<Rightarrow> (nat \<rightharpoonup> Block)" where
  "abs_step B op blk b m =
     (case op of
        Read \<Rightarrow> (if m blk = None then m(blk \<mapsto> zero_block B) else m)
      | Write \<Rightarrow> m(blk \<mapsto> b))"

definition abs_exec :: "nat \<Rightarrow> nat \<Rightarrow> (Op \<times> nat \<times> Block) list \<Rightarrow> (nat \<rightharpoonup> Block) \<Rightarrow> (nat \<rightharpoonup> Block)" where
  "abs_exec N B ops m = fold (\<lambda>(op, blk, b) m'. if blk < N then abs_step B op blk b m' else m') ops m"

text \<open>The engine \<open>s\<close> holds exactly the payloads of the memory \<open>m\<close>.\<close>

definition abstracts :: "PathORAM \<Rightarrow> (nat \<rightharpoonup> Block) \<Rightarrow> bool" where
  "abstracts s m \<longleftrightarrow> (\<forall>i d. stored s i d \<longleftrightarrow> m i = Some d)"

subsection \<open>One write on the small engine, step by step\<close>

text \<open>
  The engine \<^verbatim>\<open>PathORAM<1, 1, 1>\<close> whose generator returns \<open>0, 1, 0, 1, \<dots>\<close>, after its
  constructor (\<open>demo_ctor\<close>), and the states it goes through during
  \<^verbatim>\<open>write(0, {7})\<close>: after \<^verbatim>\<open>readPath\<close>, after the assignment to the stash, and after
  each of the two iterations of \<^verbatim>\<open>writePath\<close>.
\<close>

definition demo_ctor :: PathORAM where
  "demo_ctor =
     \<lparr>buckets = [[default_IDBlock 1], [default_IDBlock 1], [default_IDBlock 1]],
      position_map = [0, 1, 0],
      stash = [],
      mt = (\<lambda>k. (k + 3) mod 2),
      trace = []\<rparr>"

definition demo_read :: PathORAM where
  "demo_read =
     \<lparr>buckets = [[default_IDBlock 1], [default_IDBlock 1], [default_IDBlock 1]],
      position_map = [1, 1, 0],
      stash = [],
      mt = (\<lambda>k. (Suc k + 3) mod 2),
      trace = [Remap 0, BucketRead 0, BucketRead 1]\<rparr>"

definition demo_op :: PathORAM where
  "demo_op =
     \<lparr>buckets = [[default_IDBlock 1], [default_IDBlock 1], [default_IDBlock 1]],
      position_map = [1, 1, 0],
      stash = [(0, [7])],
      mt = (\<lambda>k. (Suc k + 3) mod 2),
      trace = [Remap 0, BucketRead 0, BucketRead 1]\<rparr>"

definition demo_leaf :: PathORAM where
  "demo_leaf =
     \<lparr>buckets = [[default_IDBlock 1], [default_IDBlock 1], [default_IDBlock 1]],
      position_map = [1, 1, 0],
      stash = [(0, [7])],
      mt = (\<lambda>k. (Suc k + 3) mod 2),
      trace = [Remap 0, BucketRead 0, BucketRead 1, BucketWrite 1]\<rparr>"

definition demo_written :: PathORAM where
  "demo_written =
     \<lparr>buckets = [[\<lparr>blk_id = 0, data = [7]\<rparr>], [default_IDBlock 1], [default_IDBlock 1]],
      position_map = [1, 1, 0],
      stash = [],
      mt = (\<lambda>k. (Suc k + 3) mod 2),
      trace = [Remap 0, BucketRead 0, BucketRead 1, BucketWrite 1, BucketWrite 0]\<rparr>"

subsection \<open>The observable access pattern\<close>

text \<open>
  What an observer of the storage sees of a trace: the indices of the buckets read and
  written, in order.  The rewrite of the position map is not visible.
\<close>

fun touched :: "event list \<Rightarrow> nat list" where
  "touched [] = []"
| "touched (Remap blk # es) = touched es"
| "touched (BucketRead n # es) = n # touched es"
| "touched (BucketWrite n # es) = n # touched es"

text \<open>The buckets that one access touches when the leaf it reads is \<open>leaf\<close>.\<close>

definition path_of :: "nat \<Rightarrow> nat \<Rightarrow> nat list" where
  "path_of L leaf =
     map (getNodeOnPath L leaf) [0..<Suc L] @ map (getNodeOnPath L leaf) (rev [0..<Suc L])"

text \<open>
  Two generator states for the small engine: the one that returns \<open>0, 1, 0, 1, \<dots>\<close>
  and the one that always returns \<open>0\<close>.
\<close>

definition alternating_mt :: "nat \<Rightarrow> nat" where
  "alternating_mt i = i mod 2"

definition constant_mt :: "nat \<Rightarrow> nat" where
  "constant_mt i = 0"

subsection \<open>The distribution of the access pattern\<close>

text \<open>
  An engine that is constructed and then performs \<open>n\<close> accesses draws
  \<open>block_count_N + n\<close> leaves: one for each entry of the position map, one for each
  access.  A tape is the list of these draws; \<open>tape_of\<close> is the generator state that
  returns them (and \<open>0\<close> afterwards, which nothing reads).  The draws of
  \<^verbatim>\<open>std::uniform_int_distribution\<close> are independent and uniform on
  \<open>{leaf_dist_a..leaf_dist_b L}\<close>, so every tape in \<open>tapes L k\<close> has the same probability,
  and the probability that a sequence of accesses shows the pattern \<open>t\<close> is the number of
  tapes on which it does, divided by the number of tapes.
\<close>

definition tape_of :: "nat list \<Rightarrow> nat \<Rightarrow> nat" where
  "tape_of xs = (\<lambda>k. if k < length xs then xs ! k else 0)"

definition tapes :: "nat \<Rightarrow> nat \<Rightarrow> nat list set" where
  "tapes L k = {xs. length xs = k \<and> set xs \<subseteq> {leaf_dist_a..leaf_dist_b L}}"

definition observed :: "nat \<Rightarrow> nat \<Rightarrow> nat \<Rightarrow> (Op \<times> nat \<times> Block) list \<Rightarrow> nat list \<Rightarrow> nat list" where
  "observed L B Z ops xs = touched (trace (exec_ops L B Z ops (PathORAM_ctor L B Z (tape_of xs))))"

definition trace_probability :: "nat \<Rightarrow> nat \<Rightarrow> nat \<Rightarrow> (Op \<times> nat \<times> Block) list \<Rightarrow> nat list \<Rightarrow> real" where
  "trace_probability L B Z ops t =
     real (card {xs \<in> tapes L (block_count_N L Z + length ops). observed L B Z ops xs = t})
       / real (card (tapes L (block_count_N L Z + length ops)))"

text \<open>
  The leaves that a sequence of accesses reads: \<open>leaf_run ids pm ds\<close> starts from the
  position map \<open>pm\<close>, reads for each identifier its entry and replaces it by the next draw
  of \<open>ds\<close>; it returns the final position map and the list of the leaves read.
  \<open>leaf_run_back\<close> recovers the initial position map and the draws from these two.
\<close>

fun leaf_run :: "nat list \<Rightarrow> nat list \<Rightarrow> nat list \<Rightarrow> nat list \<times> nat list" where
  "leaf_run (i # ids) pm (d # ds) =
     (fst (leaf_run ids (pm[i := d]) ds), pm ! i # snd (leaf_run ids (pm[i := d]) ds))"
| "leaf_run ids pm ds = (pm, [])"

fun leaf_run_back :: "nat list \<Rightarrow> nat list \<Rightarrow> nat list \<Rightarrow> nat list \<times> nat list" where
  "leaf_run_back (i # ids) pm (l # ls) =
     ((fst (leaf_run_back ids pm ls))[i := l],
      fst (leaf_run_back ids pm ls) ! i # snd (leaf_run_back ids pm ls))"
| "leaf_run_back ids pm ls = (pm, [])"

section \<open>The path index laws\<close>

lemma bucket_count_half: "bucket_count L div 2 = 2 ^ L - 1"
proof -
  define p :: nat where "p = 2 ^ L"
  have "1 \<le> p" by (simp add: p_def)
  then have "(2 * p - 1) div 2 = p - 1" by arith
  then show ?thesis by (simp add: bucket_count_def p_def)
qed

lemma parent_step_eq:
  assumes "0 < i" "i < 2 ^ 64 - 1"
  shows "parent_step i = (i - 1) div 2"
proof -
  define q where "q = (i - 1) div 2"
  have a: "wrap64 (i + 1) = i + 1" using assms by (simp add: wrap64_def)
  have b: "(i + 1) div 2 = q + 1" using assms unfolding q_def by arith
  have c: "q < 2 ^ 64" using assms unfolding q_def by simp
  have "q + 1 + (2 ^ 64 - 1) = q + (2::nat) ^ 64" by simp
  then have "wrap64 (q + 1 + (2 ^ 64 - 1)) = wrap64 (q + 2 ^ 64)"
    by (rule arg_cong)
  also have "\<dots> = q" using c by (simp add: wrap64_def)
  finally show ?thesis unfolding parent_step_def a b q_def .
qed

lemma climb_closed:
  assumes "j \<le> k" "x < 2 ^ k" "k \<le> 63"
  shows "climb j (x + 2 ^ k - 1) = x div 2 ^ j + 2 ^ (k - j) - 1"
  using assms
proof (induction j arbitrary: x k)
  case 0
  then show ?case by simp
next
  case (Suc j)
  then obtain k' where k: "k = Suc k'" by (cases k) auto
  define p :: nat where "p = 2 ^ k'"
  have p1: "1 \<le> p" by (simp add: p_def)
  have pk: "2 ^ k = 2 * p" by (simp add: k p_def)
  have "(2::nat) ^ k \<le> 2 ^ 63" using Suc.prems by (intro power_increasing) simp_all
  then have p63: "2 * p \<le> 2 ^ 63" by (simp add: pk)
  have xlt: "x < 2 * p" using Suc.prems pk by simp
  have pos: "0 < x + 2 * p - 1" using p1 by arith
  have lt: "x + 2 * p - 1 < 2 ^ 64 - 1" using xlt p63 by simp
  have "(x + 2 * p - 1 - 1) div 2 = x div 2 + p - 1"
    using p1 by arith
  then have step: "parent_step (x + 2 ^ k - 1) = x div 2 + 2 ^ k' - 1"
    using parent_step_eq[OF pos lt] by (simp add: pk p_def)
  have "x div 2 < 2 ^ k'" using xlt by (simp add: p_def)
  then have "climb j (x div 2 + 2 ^ k' - 1) = (x div 2) div 2 ^ j + 2 ^ (k' - j) - 1"
    using Suc.prems k by (intro Suc.IH) auto
  then show ?case using step k by (simp add: div_mult2_eq)
qed

lemma getNodeOnPath_closed:
  assumes "L \<le> 62" "leaf < 2 ^ L" "h \<le> L"
  shows "getNodeOnPath L leaf h = leaf div 2 ^ (L - h) + 2 ^ h - 1"
proof -
  have "(2::nat) ^ L \<le> 2 ^ 62" using assms by (intro power_increasing) simp_all
  then have "leaf + (2 ^ L - 1) < 2 ^ 64" using assms by simp
  then have "wrap64 (leaf + bucket_count L div 2) = leaf + 2 ^ L - 1"
    by (simp add: wrap64_def bucket_count_half)
  then show ?thesis
    using assms climb_closed[of "L - h" L leaf] by (simp add: getNodeOnPath_def)
qed


lemma getNodeOnPath_lower:
  assumes "L \<le> 62" "leaf < 2 ^ L" "h \<le> L"
  shows "2 ^ h - 1 \<le> getNodeOnPath L leaf h"
  using getNodeOnPath_closed[OF assms] by simp

lemma getNodeOnPath_upper:
  assumes "L \<le> 62" "leaf < 2 ^ L" "h \<le> L"
  shows "getNodeOnPath L leaf h < 2 ^ (h + 1) - 1"
proof -
  have "(2::nat) ^ L = 2 ^ (L - h) * 2 ^ h"
    using assms by (simp flip: power_add)
  then have "leaf div 2 ^ (L - h) < 2 ^ h"
    using assms by (simp add: less_mult_imp_div_less mult.commute)
  then show ?thesis using getNodeOnPath_closed[OF assms] by simp
qed

lemma getNodeOnPath_in_tree:
  assumes "L \<le> 62" "leaf < 2 ^ L" "h \<le> L"
  shows "getNodeOnPath L leaf h < bucket_count L"
proof -
  have "(2::nat) ^ (h + 1) \<le> 2 ^ (L + 1)"
    using assms by (intro power_increasing) simp_all
  then show ?thesis
    using getNodeOnPath_upper[OF assms] unfolding bucket_count_def by linarith
qed

lemma getNodeOnPath_level_unique:
  assumes "L \<le> 62" "leaf < 2 ^ L" "h \<le> L" "leaf' < 2 ^ L" "h' \<le> L"
    and eq: "getNodeOnPath L leaf h = getNodeOnPath L leaf' h'"
  shows "h = h'"
proof (rule ccontr)
  assume ne: "h \<noteq> h'"
  have aux: False
    if lt: "a < b" and A: "getNodeOnPath L x a < 2 ^ (a + 1) - 1"
      and B: "2 ^ b - 1 \<le> getNodeOnPath L y b"
      and e: "getNodeOnPath L x a = getNodeOnPath L y b" for a b x y
  proof -
    have "(2::nat) ^ (a + 1) \<le> 2 ^ b" using lt by (intro power_increasing) simp_all
    then show False using A B e by linarith
  qed
  show False
  proof (cases "h < h'")
    case True
    then show False
      by (rule aux[OF _ getNodeOnPath_upper[OF assms(1,2,3)]
            getNodeOnPath_lower[OF assms(1,4,5)] eq])
  next
    case False
    then have "h' < h" using ne by simp
    then show False
      by (rule aux[OF _ getNodeOnPath_upper[OF assms(1,4,5)]
            getNodeOnPath_lower[OF assms(1,2,3)] eq[symmetric]])
  qed
qed

text \<open>
  Claim C8.  For every leaf index \<open>leaf < leaf_count L\<close> and every level \<open>h \<le> L\<close>:
  \<open>getNodeOnPath L leaf L\<close> is \<open>leaf + leaf_count L - 1\<close>, the heap index of the leaf;
  \<open>getNodeOnPath L leaf 0\<close> is \<open>0\<close>, the root; and for \<open>h < L\<close> the node at level \<open>h\<close> is
  the heap parent \<open>(i - 1) div 2\<close> of the node \<open>i\<close> at level \<open>h + 1\<close>.
\<close>

theorem getNodeOnPath_laws:
  assumes "L \<le> 62" "leaf < leaf_count L" "h \<le> L"
  shows "getNodeOnPath L leaf L = leaf + leaf_count L - 1
       \<and> getNodeOnPath L leaf 0 = 0
       \<and> (h < L \<longrightarrow> getNodeOnPath L leaf h = (getNodeOnPath L leaf (h + 1) - 1) div 2)"
proof -
  have lf: "leaf < 2 ^ L" using assms by (simp add: leaf_count_def)
  have top: "getNodeOnPath L leaf L = leaf + leaf_count L - 1"
    using getNodeOnPath_closed[OF assms(1) lf, of L] by (simp add: leaf_count_def)
  have root: "getNodeOnPath L leaf 0 = 0"
    using getNodeOnPath_closed[OF assms(1) lf, of 0] lf by simp
  have par: "getNodeOnPath L leaf h = (getNodeOnPath L leaf (h + 1) - 1) div 2" if "h < L"
  proof -
    define q where "q = leaf div 2 ^ (L - (h + 1))"
    define p :: nat where "p = 2 ^ h"
    have p1: "1 \<le> p" by (simp add: p_def)
    have "L - h = Suc (L - (h + 1))" using that by simp
    then have "leaf div 2 ^ (L - h) = q div 2"
      by (simp only: power_Suc2 div_mult2_eq q_def)
    then have a: "getNodeOnPath L leaf h = q div 2 + p - 1"
      using getNodeOnPath_closed[OF assms(1) lf, of h] that by (simp add: p_def)
    have b: "getNodeOnPath L leaf (h + 1) = q + 2 * p - 1"
      using getNodeOnPath_closed[OF assms(1) lf, of "h + 1"] that by (simp add: p_def q_def)
    have "(q + 2 * p - 1 - 1) div 2 = q div 2 + p - 1" using p1 by arith
    then show ?thesis unfolding a b by simp
  qed
  show ?thesis using top root par by blast
qed

theorem getNodeOnPath_laws_witness:
  "getNodeOnPath 2 3 2 = 3 + leaf_count 2 - 1
   \<and> getNodeOnPath 2 3 0 = 0
   \<and> getNodeOnPath 2 3 1 = (getNodeOnPath 2 3 (1 + 1) - 1) div 2"
  using getNodeOnPath_laws[of 2 3 1] by (simp add: leaf_count_def)

section \<open>Frame properties of the path operations\<close>

lemma readPath_level_frame [simp]:
  "buckets (readPath_level L pos l s) = buckets s"
  "position_map (readPath_level L pos l s) = position_map s"
  "mt (readPath_level L pos l s) = mt s"
  "trace (readPath_level L pos l s) = trace s @ [BucketRead (getNodeOnPath L pos l)]"
  by (simp_all add: readPath_level_def)

lemma fold_readPath_level_frame:
  "buckets (fold (readPath_level L pos) ls s) = buckets s
   \<and> position_map (fold (readPath_level L pos) ls s) = position_map s
   \<and> mt (fold (readPath_level L pos) ls s) = mt s
   \<and> trace (fold (readPath_level L pos) ls s)
       = trace s @ map (\<lambda>l. BucketRead (getNodeOnPath L pos l)) ls"
  by (induction ls arbitrary: s) simp_all

lemma readPath_frame [simp]:
  "buckets (readPath L pos s) = buckets s"
  "position_map (readPath L pos s) = position_map s"
  "mt (readPath L pos s) = mt s"
  "trace (readPath L pos s) = trace s @ map (\<lambda>l. BucketRead (getNodeOnPath L pos l)) [0..<Suc L]"
  unfolding readPath_def using fold_readPath_level_frame[of L pos "[0..<Suc L]" s] by blast+

lemma writePath_level_frame [simp]:
  "position_map (writePath_level L B Z pos l s) = position_map s"
  "mt (writePath_level L B Z pos l s) = mt s"
  "trace (writePath_level L B Z pos l s) = trace s @ [BucketWrite (getNodeOnPath L pos l)]"
  "length (buckets (writePath_level L B Z pos l s)) = length (buckets s)"
  by (simp_all add: writePath_level_def Let_def)

lemma writePath_level_other:
  "n \<noteq> getNodeOnPath L pos l \<Longrightarrow> buckets (writePath_level L B Z pos l s) ! n = buckets s ! n"
  by (simp add: writePath_level_def Let_def)

lemma fold_writePath_level_frame:
  "position_map (fold (writePath_level L B Z pos) ls s) = position_map s
   \<and> mt (fold (writePath_level L B Z pos) ls s) = mt s
   \<and> length (buckets (fold (writePath_level L B Z pos) ls s)) = length (buckets s)
   \<and> trace (fold (writePath_level L B Z pos) ls s)
       = trace s @ map (\<lambda>l. BucketWrite (getNodeOnPath L pos l)) ls"
  by (induction ls arbitrary: s) simp_all

lemma fold_writePath_level_other:
  "\<forall>l \<in> set ls. n \<noteq> getNodeOnPath L pos l \<Longrightarrow>
   buckets (fold (writePath_level L B Z pos) ls s) ! n = buckets s ! n"
  by (induction ls arbitrary: s) (simp_all add: writePath_level_other)

lemma writePath_frame [simp]:
  "position_map (writePath L B Z pos s) = position_map s"
  "mt (writePath L B Z pos s) = mt s"
  "length (buckets (writePath L B Z pos s)) = length (buckets s)"
  "trace (writePath L B Z pos s)
     = trace s @ map (\<lambda>l. BucketWrite (getNodeOnPath L pos l)) (rev [0..<Suc L])"
  unfolding writePath_def
  using fold_writePath_level_frame[of L B Z pos "rev [0..<Suc L]" s] by blast+

lemma writePath_other:
  "\<forall>l \<le> L. n \<noteq> getNodeOnPath L pos l \<Longrightarrow>
   buckets (writePath L B Z pos s) ! n = buckets s ! n"
  unfolding writePath_def by (rule fold_writePath_level_other) simp

lemma remap_frame [simp]:
  "buckets (remap blk s) = buckets s"
  "stash (remap blk s) = stash s"
  "position_map (remap blk s) = (position_map s)[blk := mt s 0]"
  "mt (remap blk s) = (\<lambda>i. mt s (Suc i))"
  "trace (remap blk s) = trace s @ [Remap blk]"
  by (simp_all add: remap_def randomPath_def)

lemma stash_op_frame [simp]:
  "buckets (snd (stash_op B op blk b s)) = buckets s"
  "position_map (snd (stash_op B op blk b s)) = position_map s"
  "mt (snd (stash_op B op blk b s)) = mt s"
  "trace (snd (stash_op B op blk b s)) = trace s"
  by (simp_all add: stash_op_def split: Op.splits prod.splits)

lemma access_success:
  assumes "blk < block_count_N L Z"
  shows "access L B Z op blk b s =
     (Inr (fst (stash_op B op blk b (readPath L (position_map s ! blk) (remap blk s)))),
      writePath L B Z (position_map s ! blk)
        (snd (stash_op B op blk b (readPath L (position_map s ! blk) (remap blk s)))))"
  using assms by (simp add: access_def Let_def split: prod.splits)

lemma access_failure:
  assumes "block_count_N L Z \<le> blk"
  shows "access L B Z op blk b s = (Inl OutOfRange, s)"
  using assms by (simp add: access_def)

lemma access_Read_arg:
  "access L B Z Read blk b s = access L B Z Read blk b' s"
  by (simp add: access_def stash_op_def)

text \<open>The state after \<^verbatim>\<open>write\<close> is the state after the \<^verbatim>\<open>access\<close> it calls.\<close>

lemma snd_write_blk: "snd (write_blk L B Z blk b s) = snd (access L B Z Write blk b s)"
  by (simp add: write_blk_def split: prod.splits sum.splits)

section \<open>The range check and the effects of an access\<close>

lemma block_count_N_1_1: "block_count_N 1 1 = 3"
  by (simp add: block_count_N_def bucket_count_def wrap64_def)

text \<open>
  Claim C6.  Every call of \<^verbatim>\<open>access\<close>, \<^verbatim>\<open>read\<close> or \<^verbatim>\<open>write\<close> with \<open>blk \<ge> block_count_N\<close>
  fails with \<open>OutOfRange\<close> and returns the engine state it was given (tree, position
  map, stash, generator and trace); every call with \<open>blk < block_count_N\<close>, in particular
  \<open>blk = block_count_N - 1\<close>, returns a payload and no error.
\<close>

theorem access_range_check:
  "(block_count_N L Z \<le> blk \<longrightarrow>
      access L B Z op blk b s = (Inl OutOfRange, s)
      \<and> read L B Z blk s = (Inl OutOfRange, s)
      \<and> write_blk L B Z blk b s = (Inl OutOfRange, s))
   \<and> (blk < block_count_N L Z \<longrightarrow>
      (\<exists>b'. fst (access L B Z op blk b s) = Inr b')
      \<and> (\<exists>b'. fst (read L B Z blk s) = Inr b')
      \<and> fst (write_blk L B Z blk b s) = Inr ())"
proof (intro conjI impI)
  assume out: "block_count_N L Z \<le> blk"
  show "access L B Z op blk b s = (Inl OutOfRange, s)"
    by (rule access_failure[OF out])
  show "read L B Z blk s = (Inl OutOfRange, s)"
    unfolding read_def by (rule access_failure[OF out])
  show "write_blk L B Z blk b s = (Inl OutOfRange, s)"
    unfolding write_blk_def access_failure[OF out] by simp
next
  assume inside: "blk < block_count_N L Z"
  show "\<exists>b'. fst (access L B Z op blk b s) = Inr b'"
    unfolding access_success[OF inside] by simp
  show "\<exists>b'. fst (read L B Z blk s) = Inr b'"
    unfolding read_def access_success[OF inside] by simp
  show "fst (write_blk L B Z blk b s) = Inr ()"
    unfolding write_blk_def access_success[OF inside] by simp
qed

theorem access_range_check_witness:
  "access 1 1 1 Write 3 [7] demo_state = (Inl OutOfRange, demo_state)
   \<and> read 1 1 1 3 demo_state = (Inl OutOfRange, demo_state)
   \<and> write_blk 1 1 1 3 [7] demo_state = (Inl OutOfRange, demo_state)
   \<and> (\<exists>b'. fst (access 1 1 1 Write (block_count_N 1 1 - 1) [7] demo_state) = Inr b')
   \<and> (\<exists>b'. fst (read 1 1 1 (block_count_N 1 1 - 1) demo_state) = Inr b')
   \<and> fst (write_blk 1 1 1 (block_count_N 1 1 - 1) [7] demo_state) = Inr ()"
proof -
  have ge: "block_count_N 1 1 \<le> 3"
    unfolding block_count_N_1_1 by simp
  have lt: "block_count_N 1 1 - 1 < block_count_N 1 1"
    unfolding block_count_N_1_1 by simp
  show ?thesis
    using access_range_check[of 1 1 3 1 Write "[7]" demo_state]
      access_range_check[of 1 1 "block_count_N 1 1 - 1" 1 Write "[7]" demo_state]
      ge lt
    by blast
qed


lemma access_trace:
  assumes "blk < block_count_N L Z"
  shows "trace (snd (access L B Z op blk b s)) =
     trace s @ Remap blk
       # map (\<lambda>h. BucketRead (getNodeOnPath L (position_map s ! blk) h)) [0..<Suc L]
       @ map (\<lambda>h. BucketWrite (getNodeOnPath L (position_map s ! blk) h)) (rev [0..<Suc L])"
  by (simp add: access_success[OF assms])

lemma access_position_map:
  assumes "blk < block_count_N L Z"
  shows "position_map (snd (access L B Z op blk b s)) = (position_map s)[blk := mt s 0]"
  by (simp add: access_success[OF assms])

lemma access_mt:
  assumes "blk < block_count_N L Z"
  shows "mt (snd (access L B Z op blk b s)) = (\<lambda>i. mt s (Suc i))"
  by (simp add: access_success[OF assms])

lemma access_buckets_other:
  assumes "blk < block_count_N L Z"
    and "\<forall>h \<le> L. n \<noteq> getNodeOnPath L (position_map s ! blk) h"
  shows "buckets (snd (access L B Z op blk b s)) ! n = buckets s ! n"
  by (simp add: access_success[OF assms(1)] writePath_other[OF assms(2)])

text \<open>
  Claim C9.  A successful \<^verbatim>\<open>access\<close> for \<open>blk\<close> performs, after the effects already in
  the trace, exactly these and in this order: one rewrite of \<open>position_map[blk]\<close>; the
  reads of the \<open>L + 1\<close> buckets \<open>getNodeOnPath L old_leaf h\<close> for \<open>h = 0, \<dots>, L\<close>, where
  \<open>old_leaf\<close> is the entry of \<open>blk\<close> before the rewrite; the writes of the same buckets for
  \<open>h = L, \<dots>, 0\<close>.  The position map changes at \<open>blk\<close> only, to the value drawn by
  \<^verbatim>\<open>randomPath\<close>, and every bucket off that path is left as it was.
\<close>

theorem access_effects:
  assumes "blk < block_count_N L Z"
  shows "trace (snd (access L B Z op blk b s)) =
       trace s @ Remap blk
         # map (\<lambda>h. BucketRead (getNodeOnPath L (position_map s ! blk) h)) [0..<Suc L]
         @ map (\<lambda>h. BucketWrite (getNodeOnPath L (position_map s ! blk) h)) (rev [0..<Suc L])
     \<and> position_map (snd (access L B Z op blk b s))
         = (position_map s)[blk := fst (randomPath s)]
     \<and> (\<forall>j. j \<noteq> blk \<longrightarrow>
           position_map (snd (access L B Z op blk b s)) ! j = position_map s ! j)
     \<and> (\<forall>n. (\<forall>h \<le> L. n \<noteq> getNodeOnPath L (position_map s ! blk) h) \<longrightarrow>
           buckets (snd (access L B Z op blk b s)) ! n = buckets s ! n)"
proof -
  have pm: "position_map (snd (access L B Z op blk b s))
      = (position_map s)[blk := fst (randomPath s)]"
    using access_position_map[OF assms] by (simp add: randomPath_def)
  have other: "position_map (snd (access L B Z op blk b s)) ! j = position_map s ! j"
    if "j \<noteq> blk" for j
    using that by (simp add: pm)
  show ?thesis
    using access_trace[OF assms] pm other access_buckets_other[OF assms] by blast
qed

lemma getNodeOnPath_1_0: "getNodeOnPath 1 0 0 = 0" "getNodeOnPath 1 0 1 = 1"
  using getNodeOnPath_closed[of 1 0 0] getNodeOnPath_closed[of 1 0 1] by simp_all

theorem access_effects_witness:
  "trace (snd (access 1 1 1 Write 0 [7] demo_state)) =
       trace demo_state @ Remap 0
         # map (\<lambda>h. BucketRead (getNodeOnPath 1 (position_map demo_state ! 0) h)) [0..<Suc 1]
         @ map (\<lambda>h. BucketWrite (getNodeOnPath 1 (position_map demo_state ! 0) h)) (rev [0..<Suc 1])
   \<and> position_map (snd (access 1 1 1 Write 0 [7] demo_state))
         = (position_map demo_state)[0 := fst (randomPath demo_state)]
   \<and> position_map (snd (access 1 1 1 Write 0 [7] demo_state)) ! 1 = position_map demo_state ! 1
   \<and> buckets (snd (access 1 1 1 Write 0 [7] demo_state)) ! 2 = buckets demo_state ! 2"
proof -
  have lt: "0 < block_count_N 1 1"
    unfolding block_count_N_1_1 by simp
  have pos: "position_map demo_state ! 0 = 0"
    by (simp add: demo_state_def)
  have off: "\<forall>h \<le> 1. 2 \<noteq> getNodeOnPath 1 (position_map demo_state ! 0) h"
  proof (intro allI impI)
    fix h :: nat assume "h \<le> 1"
    then have "h = 0 \<or> h = 1" by auto
    then show "2 \<noteq> getNodeOnPath 1 (position_map demo_state ! 0) h"
      unfolding pos using getNodeOnPath_1_0 by auto
  qed
  have ne: "(1::nat) \<noteq> 0" by simp
  show ?thesis
    using access_effects[OF lt, of 1 Write "[7]" demo_state] off ne by blast
qed

section \<open>The position map and the leaf distribution\<close>

lemma init_position_frame [simp]:
  "buckets (init_position i s) = buckets s"
  "stash (init_position i s) = stash s"
  "trace (init_position i s) = trace s"
  "position_map (init_position i s) = (position_map s)[i := mt s 0]"
  "mt (init_position i s) = (\<lambda>k. mt s (Suc k))"
  by (simp_all add: init_position_def randomPath_def)

lemma fold_init_position:
  assumes "n \<le> length (position_map s)"
  shows "position_map (fold init_position [0..<n] s)
           = map (mt s) [0..<n] @ drop n (position_map s)
       \<and> mt (fold init_position [0..<n] s) = (\<lambda>k. mt s (k + n))
       \<and> buckets (fold init_position [0..<n] s) = buckets s
       \<and> stash (fold init_position [0..<n] s) = stash s
       \<and> trace (fold init_position [0..<n] s) = trace s"
  using assms
proof (induction n)
  case 0
  then show ?case by simp
next
  case (Suc n)
  then have IH: "position_map (fold init_position [0..<n] s)
           = map (mt s) [0..<n] @ drop n (position_map s)"
    "mt (fold init_position [0..<n] s) = (\<lambda>k. mt s (k + n))"
    "buckets (fold init_position [0..<n] s) = buckets s"
    "stash (fold init_position [0..<n] s) = stash s"
    "trace (fold init_position [0..<n] s) = trace s"
    by simp_all
  have n: "n < length (position_map s)" using Suc.prems by simp
  have "(map (mt s) [0..<n] @ drop n (position_map s))[n := mt s n]
      = map (mt s) [0..<n] @ (drop n (position_map s))[0 := mt s n]"
    by (simp add: list_update_append)
  also have "(drop n (position_map s))[0 := mt s n] = mt s n # drop (Suc n) (position_map s)"
    using n by (simp add: Cons_nth_drop_Suc[symmetric])
  finally have "(map (mt s) [0..<n] @ drop n (position_map s))[n := mt s n]
      = map (mt s) [0..<Suc n] @ drop (Suc n) (position_map s)"
    by simp
  then show ?case by (simp add: IH)
qed

lemma PathORAM_ctor_fields:
  "position_map (PathORAM_ctor L B Z g) = map g [0..<block_count_N L Z]"
  "mt (PathORAM_ctor L B Z g) = (\<lambda>k. g (k + block_count_N L Z))"
  "buckets (PathORAM_ctor L B Z g) = replicate (bucket_count L) (replicate Z (default_IDBlock B))"
  "stash (PathORAM_ctor L B Z g) = []"
  "trace (PathORAM_ctor L B Z g) = []"
  unfolding PathORAM_ctor_def
  using fold_init_position[of "block_count_N L Z"
      "\<lparr>buckets = replicate (bucket_count L) (replicate Z (default_IDBlock B)),
        position_map = replicate (block_count_N L Z) 0,
        stash = [], mt = g, trace = []\<rparr>"]
  by simp_all

lemma leaf_dist_b_eq: "leaf_dist_b L = leaf_count L - 1"
  by (simp add: leaf_dist_b_def bucket_count_half leaf_count_def)

lemma mt_in_range_lt: "mt_in_range L g \<Longrightarrow> g i < leaf_count L"
proof -
  assume "mt_in_range L g"
  then have "g i \<le> leaf_count L - 1"
    by (simp add: mt_in_range_def leaf_dist_b_eq)
  moreover have "0 < leaf_count L" by (simp add: leaf_count_def)
  ultimately show ?thesis by linarith
qed

lemma leaf_dist_pmf_eq:
  "leaf_dist_pmf L i = (if i < leaf_count L then 1 / real (leaf_count L) else 0)"
proof -
  have pos: "0 < leaf_count L" by (simp add: leaf_count_def)
  then have a: "leaf_count L - 1 - 0 + 1 = leaf_count L" by simp
  have b: "i \<le> leaf_count L - 1 \<longleftrightarrow> i < leaf_count L" using pos by linarith
  show ?thesis
    unfolding leaf_dist_pmf_def uniform_int_pmf_def leaf_dist_a_def leaf_dist_b_eq a b
    by simp
qed

text \<open>
  Claim C7.  The distribution \<^verbatim>\<open>leaf_dist{0, bucket_count/2}\<close> ranges over \<open>0, \<dots>, leaf_count L - 1\<close>
  and gives each of these \<open>leaf_count L = 2 ^ L\<close> leaves the probability \<open>1 / leaf_count L\<close>,
  and probability \<open>0\<close> to every other value.  The value returned by \<^verbatim>\<open>randomPath\<close> is
  below \<open>leaf_count L\<close>; it is the entry that an access writes into the position map
  at \<open>blk\<close>; and the constructor fills entry \<open>j\<close> of the position map with the
  \<open>j\<close>-th value drawn, which is below \<open>leaf_count L\<close>.
\<close>

theorem randomPath_uniform_leaf:
  assumes "mt_in_range L g" and "mt s = g"
    and "blk < block_count_N L Z" and "j < block_count_N L Z"
  shows "leaf_dist_a = 0 \<and> leaf_dist_b L = leaf_count L - 1
     \<and> leaf_dist_pmf L i = (if i < leaf_count L then 1 / real (leaf_count L) else 0)
     \<and> fst (randomPath s) < leaf_count L
     \<and> position_map (snd (access L B Z op blk b s))
          = (position_map s)[blk := fst (randomPath s)]
     \<and> position_map (PathORAM_ctor L B Z g) ! j = g j
     \<and> g j < leaf_count L"
proof -
  have draw: "fst (randomPath s) < leaf_count L"
    using mt_in_range_lt[OF assms(1), of 0] assms(2) by (simp add: randomPath_def)
  have acc: "position_map (snd (access L B Z op blk b s))
          = (position_map s)[blk := fst (randomPath s)]"
    using access_position_map[OF assms(3)] by (simp add: randomPath_def)
  have ctor: "position_map (PathORAM_ctor L B Z g) ! j = g j"
    using assms(4) by (simp add: PathORAM_ctor_fields)
  show ?thesis
    using draw acc ctor leaf_dist_b_eq leaf_dist_pmf_eq mt_in_range_lt[OF assms(1)]
    by (simp add: leaf_dist_a_def)
qed

lemma mt_in_range_mod2: "mt_in_range 1 (\<lambda>i. i mod 2)"
proof -
  have "i mod 2 \<le> Suc 0" for i :: nat by presburger
  then show ?thesis
    by (simp add: mt_in_range_def leaf_dist_a_def leaf_dist_b_def bucket_count_def)
qed

theorem randomPath_uniform_leaf_witness:
  "leaf_dist_a = 0 \<and> leaf_dist_b 1 = leaf_count 1 - 1
     \<and> leaf_dist_pmf 1 1 = (if 1 < leaf_count 1 then 1 / real (leaf_count 1) else 0)
     \<and> fst (randomPath demo_state) < leaf_count 1
     \<and> position_map (snd (access 1 1 1 Read 2 [] demo_state))
          = (position_map demo_state)[2 := fst (randomPath demo_state)]
     \<and> position_map (PathORAM_ctor 1 1 1 (\<lambda>i. i mod 2)) ! 1 = (\<lambda>i. i mod 2) 1
     \<and> (\<lambda>i. i mod 2) 1 < leaf_count 1"
proof -
  have g: "mt demo_state = (\<lambda>i. i mod 2)"
    by (simp add: demo_state_def)
  have lt2: "2 < block_count_N 1 1" and lt1: "1 < block_count_N 1 1"
    unfolding block_count_N_1_1 by simp_all
  show ?thesis
    by (rule randomPath_uniform_leaf[OF mt_in_range_mod2 g lt2 lt1])
qed

section \<open>The stash\<close>

lemma keys_insort_key:
  "map fst (insort_key fst (k, v) m) = insort k (map fst m)"
  by (induction m) auto

lemma map_of_insort_key_at:
  "map_of m k = None \<Longrightarrow>
   map_of (insort_key fst (k, v) m) k' = (if k' = k then Some v else map_of m k')"
  by (induction m) (auto split: if_splits)

lemma map_of_insort_key:
  "map_of m k = None \<Longrightarrow> map_of (insort_key fst (k, v) m) = (map_of m)(k \<mapsto> v)"
  by (rule ext) (simp add: map_of_insort_key_at)

lemma stash_ok_insort_key:
  "stash_ok m \<Longrightarrow> map_of m k = None \<Longrightarrow> stash_ok (insort_key fst (k, v) m)"
  by (simp add: stash_ok_def keys_insort_key distinct_insort sorted_insort map_of_eq_None_iff)

lemma map_of_emplace:
  "map_of (emplace k v m) = (if map_of m k = None then (map_of m)(k \<mapsto> v) else map_of m)"
  by (simp add: emplace_def map_of_insort_key)

lemma stash_ok_emplace: "stash_ok m \<Longrightarrow> stash_ok (emplace k v m)"
  by (simp add: emplace_def stash_ok_insort_key)

lemma fst_stash_index:
  "fst (stash_index B k m) = (case map_of m k of Some v \<Rightarrow> v | None \<Rightarrow> zero_block B)"
  by (simp add: stash_index_def split: option.splits)

lemma map_of_stash_index:
  "map_of (snd (stash_index B k m))
     = (if map_of m k = None then (map_of m)(k \<mapsto> zero_block B) else map_of m)"
  by (auto simp: stash_index_def map_of_insort_key split: option.splits)

lemma stash_ok_stash_index: "stash_ok m \<Longrightarrow> stash_ok (snd (stash_index B k m))"
  by (auto simp: stash_index_def stash_ok_insort_key split: option.splits)

lemma map_of_stash_assign: "map_of (stash_assign B k v m) = (map_of m)(k \<mapsto> v)"
  by (auto simp: stash_assign_def update_conv' map_of_stash_index)

lemma stash_ok_stash_assign: "stash_ok m \<Longrightarrow> stash_ok (stash_assign B k v m)"
proof -
  assume ok: "stash_ok m"
  let ?m = "snd (stash_index B k m)"
  have "map_of ?m k \<noteq> None" by (simp add: map_of_stash_index)
  then have "k \<in> fst ` set ?m" by (simp add: map_of_eq_None_iff)
  then have "map fst (AList.update k v ?m) = map fst ?m"
    by (simp add: update_keys)
  then show ?thesis
    using stash_ok_stash_index[OF ok, of B k] by (simp add: stash_assign_def stash_ok_def)
qed

lemma map_of_erase: "map_of (erase k m) = (map_of m)(k := None)"
  by (simp add: erase_def delete_conv')

lemma stash_ok_erase: "stash_ok m \<Longrightarrow> stash_ok (erase k m)"
  by (simp add: erase_def stash_ok_def delete_keys distinct_removeAll
      removeAll_filter_not_eq sorted_filter[where f = "\<lambda>x. x", simplified])

section \<open>Reading a path into the stash\<close>

lemma readBucket_Nil [simp]: "readBucket [] st = st"
  by (simp add: readBucket_def)

lemma readBucket_Cons:
  "readBucket (x # b) st =
     readBucket b (if blk_id x \<noteq> invalid_block then emplace (blk_id x) (data x) st else st)"
  by (simp add: readBucket_def)

lemma emplace_keeps:
  "map_of st i = Some d \<Longrightarrow> map_of (emplace k v st) i = Some d"
  by (auto simp: map_of_emplace)

lemma readBucket_keeps:
  "map_of st i = Some d \<Longrightarrow> map_of (readBucket b st) i = Some d"
proof (induction b arbitrary: st)
  case Nil
  then show ?case by simp
next
  case (Cons x b)
  show ?case
    unfolding readBucket_Cons
    by (rule Cons.IH) (simp add: emplace_keeps[OF Cons.prems] Cons.prems)
qed

lemma readBucket_from:
  "map_of (readBucket b st) i = Some d \<Longrightarrow>
   map_of st i = Some d \<or> (\<exists>x\<in>set b. blk_id x = i \<and> i \<noteq> invalid_block \<and> data x = d)"
proof (induction b arbitrary: st)
  case Nil
  then show ?case by simp
next
  case (Cons x b)
  let ?st = "if blk_id x \<noteq> invalid_block then emplace (blk_id x) (data x) st else st"
  from Cons.prems have "map_of (readBucket b ?st) i = Some d"
    by (simp add: readBucket_Cons)
  from Cons.IH[OF this] show ?case
    by (auto simp: map_of_emplace split: if_splits)
qed

lemma readBucket_has:
  "x \<in> set b \<Longrightarrow> blk_id x \<noteq> invalid_block \<Longrightarrow> map_of (readBucket b st) (blk_id x) \<noteq> None"
proof (induction b arbitrary: st)
  case Nil
  then show ?case by simp
next
  case (Cons y b)
  let ?st = "if blk_id y \<noteq> invalid_block then emplace (blk_id y) (data y) st else st"
  show ?case
  proof (cases "x = y")
    case True
    then have "map_of ?st (blk_id x) \<noteq> None"
      using Cons.prems by (simp add: map_of_emplace)
    then obtain d where "map_of ?st (blk_id x) = Some d" by blast
    from readBucket_keeps[OF this] show ?thesis
      by (simp add: readBucket_Cons)
  next
    case False
    then have "x \<in> set b" using Cons.prems by simp
    from Cons.IH[OF this Cons.prems(2)] show ?thesis
      by (simp add: readBucket_Cons)
  qed
qed

lemma stash_ok_readBucket: "stash_ok st \<Longrightarrow> stash_ok (readBucket b st)"
  by (induction b arbitrary: st) (simp_all add: readBucket_Cons stash_ok_emplace)

lemma holds_at_set:
  "holds_at bks n z i \<Longrightarrow> bks ! n ! z \<in> set (bks ! n)"
  by (simp add: holds_at_def)

lemma set_holds_at:
  assumes "n < length bks" "x \<in> set (bks ! n)" "blk_id x \<noteq> invalid_block"
  shows "\<exists>z. holds_at bks n z (blk_id x) \<and> bks ! n ! z = x"
proof -
  from assms(2) obtain z where "z < length (bks ! n)" "bks ! n ! z = x"
    by (auto simp: in_set_conv_nth)
  then show ?thesis using assms by (auto simp: holds_at_def)
qed

text \<open>Reading one more bucket of the tree into the stash.\<close>

lemma read_level_tree_ok:
  assumes ok: "tree_ok L N D bks pm st" and n: "n \<notin> D" "n < length bks"
  shows "tree_ok L N (insert n D) bks pm (readBucket (bks ! n) st)"
  unfolding tree_ok_def
proof (intro allI impI)
  fix n' z i
  assume a: "n' \<notin> insert n D \<and> holds_at bks n' z i"
  then have n': "n' \<notin> D" "n' \<noteq> n" and h: "holds_at bks n' z i" by auto
  from ok n'(1) h have P: "i < N" "map_of st i = None"
    "\<exists>h\<le>L. n' = getNodeOnPath L (pm ! i) h"
    and U: "\<And>m y. m \<notin> D \<Longrightarrow> holds_at bks m y i \<Longrightarrow> m = n' \<and> y = z"
    unfolding tree_ok_def by blast+
  have "map_of (readBucket (bks ! n) st) i = None"
  proof (rule ccontr)
    assume "map_of (readBucket (bks ! n) st) i \<noteq> None"
    then obtain d where "map_of (readBucket (bks ! n) st) i = Some d" by blast
    from readBucket_from[OF this] P(2)
    obtain x where x: "x \<in> set (bks ! n)" "blk_id x = i" "i \<noteq> invalid_block" by auto
    from set_holds_at[OF n(2) x(1)] x obtain y where "holds_at bks n y i" by auto
    from U[OF n(1) this] n'(2) show False by simp
  qed
  moreover have "\<forall>m y. m \<notin> insert n D \<and> holds_at bks m y i \<longrightarrow> m = n' \<and> y = z"
    using U by auto
  ultimately show "i < N \<and> map_of (readBucket (bks ! n) st) i = None
      \<and> (\<exists>h\<le>L. n' = getNodeOnPath L (pm ! i) h)
      \<and> (\<forall>m y. m \<notin> insert n D \<and> holds_at bks m y i \<longrightarrow> m = n' \<and> y = z)"
    using P by blast
qed

lemma read_level_content:
  assumes ok: "tree_ok L N D bks pm st" and n: "n \<notin> D" "n < length bks"
  shows "content (insert n D) bks (readBucket (bks ! n) st) i d \<longleftrightarrow> content D bks st i d"
proof
  assume "content (insert n D) bks (readBucket (bks ! n) st) i d"
  then consider (stash) "map_of (readBucket (bks ! n) st) i = Some d"
    | (tree) m z where "m \<notin> insert n D" "holds_at bks m z i" "data (bks ! m ! z) = d"
    unfolding content_def by blast
  then show "content D bks st i d"
  proof cases
    case stash
    from readBucket_from[OF this] show ?thesis
    proof
      assume "map_of st i = Some d"
      then show ?thesis by (simp add: content_def)
    next
      assume "\<exists>x\<in>set (bks ! n). blk_id x = i \<and> i \<noteq> invalid_block \<and> data x = d"
      then obtain x where x: "x \<in> set (bks ! n)" "blk_id x = i" "i \<noteq> invalid_block" "data x = d"
        by blast
      from set_holds_at[OF n(2) x(1)] x obtain y where "holds_at bks n y i" "bks ! n ! y = x"
        by auto
      then show ?thesis using n(1) x(4) unfolding content_def by blast
    qed
  next
    case tree
    then show ?thesis unfolding content_def by blast
  qed
next
  assume "content D bks st i d"
  then consider (stash) "map_of st i = Some d"
    | (tree) m z where "m \<notin> D" "holds_at bks m z i" "data (bks ! m ! z) = d"
    unfolding content_def by blast
  then show "content (insert n D) bks (readBucket (bks ! n) st) i d"
  proof cases
    case stash
    from readBucket_keeps[OF this] show ?thesis by (simp add: content_def)
  next
    case tree
    from ok tree(1,2) have none: "map_of st i = None"
      and U: "\<And>m' y. m' \<notin> D \<Longrightarrow> holds_at bks m' y i \<Longrightarrow> m' = m \<and> y = z"
      unfolding tree_ok_def by blast+
    show ?thesis
    proof (cases "m = n")
      case False
      then show ?thesis using tree unfolding content_def by blast
    next
      case True
      have inv: "i \<noteq> invalid_block" "blk_id (bks ! n ! z) = i"
        using tree(2) True by (simp_all add: holds_at_def)
      have "bks ! n ! z \<in> set (bks ! n)" using holds_at_set[OF tree(2)] True by simp
      from readBucket_has[OF this, of st] inv
      obtain d' where d': "map_of (readBucket (bks ! n) st) i = Some d'" by auto
      from readBucket_from[OF this] none
      obtain x where x: "x \<in> set (bks ! n)" "blk_id x = i" "data x = d'" by auto
      from set_holds_at[OF n(2) x(1)] x(2) inv(1)
      obtain y where y: "holds_at bks n y i" "bks ! n ! y = x" by auto
      from U[OF n(1) y(1)] have "y = z" by simp
      then have "d' = d" using x(3) y(2) tree(3) True by simp
      then show ?thesis using d' by (simp add: content_def)
    qed
  qed
qed

lemma read_level_mid_inv:
  assumes inv: "mid_inv L N D bks pm st" and n: "n \<notin> D" "n < length bks"
  shows "mid_inv L N (insert n D) bks pm (readBucket (bks ! n) st)"
proof -
  from inv have ok: "tree_ok L N D bks pm st" and so: "stash_ok st"
    and lt: "\<And>k d. map_of st k = Some d \<Longrightarrow> k < N"
    unfolding mid_inv_def by blast+
  have "k < N" if "map_of (readBucket (bks ! n) st) k = Some d" for k d
  proof -
    from readBucket_from[OF that] show ?thesis
    proof
      assume "map_of st k = Some d"
      then show ?thesis by (rule lt)
    next
      assume "\<exists>x\<in>set (bks ! n). blk_id x = k \<and> k \<noteq> invalid_block \<and> data x = d"
      then obtain x where x: "x \<in> set (bks ! n)" "blk_id x = k" "k \<noteq> invalid_block" by blast
      from set_holds_at[OF n(2) x(1)] x obtain y where "holds_at bks n y k" by auto
      with ok n(1) show ?thesis unfolding tree_ok_def by blast
    qed
  qed
  then show ?thesis
    unfolding mid_inv_def
    using read_level_tree_ok[OF ok n] stash_ok_readBucket[OF so] by blast
qed

lemma read_levels:
  assumes "mid_inv L N D bks pm st"
    and "distinct (map f ls)"
    and "\<forall>l\<in>set ls. f l \<notin> D \<and> f l < length bks"
  shows "mid_inv L N (D \<union> f ` set ls) bks pm (fold (\<lambda>l. readBucket (bks ! f l)) ls st)
       \<and> (\<forall>i d. content (D \<union> f ` set ls) bks (fold (\<lambda>l. readBucket (bks ! f l)) ls st) i d
                 \<longleftrightarrow> content D bks st i d)"
  using assms
proof (induction ls arbitrary: D st)
  case Nil
  then show ?case by simp
next
  case (Cons l ls)
  have n: "f l \<notin> D" "f l < length bks" using Cons.prems(3) by simp_all
  have ok: "tree_ok L N D bks pm st" using Cons.prems(1) by (simp add: mid_inv_def)
  have step: "mid_inv L N (insert (f l) D) bks pm (readBucket (bks ! f l) st)"
    by (rule read_level_mid_inv[OF Cons.prems(1) n])
  have d: "distinct (map f ls)" using Cons.prems(2) by simp
  have "f l \<notin> f ` set ls" using Cons.prems(2) by simp
  then have "f l' \<noteq> f l" if "l' \<in> set ls" for l' using that by (metis imageI)
  then have r: "\<forall>l'\<in>set ls. f l' \<notin> insert (f l) D \<and> f l' < length bks"
    using Cons.prems(3) by simp
  have eq: "insert (f l) D \<union> f ` set ls = D \<union> f ` set (l # ls)" by auto
  from Cons.IH[OF step d r] read_level_content[OF ok n]
  show ?case unfolding eq by simp
qed

lemma stash_fold_readPath_level:
  "stash (fold (readPath_level L pos) ls s)
     = fold (\<lambda>l. readBucket (buckets s ! getNodeOnPath L pos l)) ls (stash s)"
proof (induction ls arbitrary: s)
  case Nil
  then show ?case by simp
next
  case (Cons l ls)
  show ?case by (simp add: Cons.IH) (simp add: readPath_level_def)
qed

lemma stash_readPath:
  "stash (readPath L pos s)
     = fold (\<lambda>l. readBucket (buckets s ! getNodeOnPath L pos l)) [0..<Suc L] (stash s)"
  unfolding readPath_def by (rule stash_fold_readPath_level)

section \<open>Writing a path back\<close>

subsection \<open>The loops of \<^verbatim>\<open>writePath\<close>\<close>

lemma fill_slot_eq:
  "fill_slot B valid z (bk, st) =
     (bk[z := \<lparr>blk_id = valid ! z, data = fst (stash_index B (valid ! z) st)\<rparr>],
      erase (valid ! z) (snd (stash_index B (valid ! z) st)))"
  by (simp add: fill_slot_def Let_def split: prod.splits)

lemma nth_notin_take:
  assumes "distinct xs" "k < length xs"
  shows "xs ! k \<notin> set (take k xs)"
proof
  assume "xs ! k \<in> set (take k xs)"
  then obtain j where j: "j < k" "take k xs ! j = xs ! k"
    using assms by (auto simp: in_set_conv_nth)
  then have "xs ! j = xs ! k" by simp
  with assms j(1) show False by (simp add: nth_eq_iff_index_eq)
qed

lemma fill_loop:
  assumes "k \<le> length valid" "k \<le> length bk0" "distinct valid"
    and "\<forall>i\<in>set valid. map_of st i \<noteq> None" and "stash_ok st"
  shows "length (fst (fold (fill_slot B valid) [0..<k] (bk0, st))) = length bk0
     \<and> (\<forall>z<k. fst (fold (fill_slot B valid) [0..<k] (bk0, st)) ! z
              = \<lparr>blk_id = valid ! z, data = the (map_of st (valid ! z))\<rparr>)
     \<and> (\<forall>z. k \<le> z \<longrightarrow> fst (fold (fill_slot B valid) [0..<k] (bk0, st)) ! z = bk0 ! z)
     \<and> map_of (snd (fold (fill_slot B valid) [0..<k] (bk0, st)))
         = (\<lambda>i. if i \<in> set (take k valid) then None else map_of st i)
     \<and> stash_ok (snd (fold (fill_slot B valid) [0..<k] (bk0, st)))"
  using assms(1,2)
proof (induction k)
  case 0
  then show ?case using assms(5) by simp
next
  case (Suc k)
  define r where "r = fold (fill_slot B valid) [0..<k] (bk0, st)"
  have k: "k < length valid" "k < length bk0" using Suc.prems by simp_all
  from Suc.IH k have IH: "length (fst r) = length bk0"
    "\<And>z. z < k \<Longrightarrow> fst r ! z = \<lparr>blk_id = valid ! z, data = the (map_of st (valid ! z))\<rparr>"
    "\<And>z. k \<le> z \<Longrightarrow> fst r ! z = bk0 ! z"
    "map_of (snd r) = (\<lambda>i. if i \<in> set (take k valid) then None else map_of st i)"
    "stash_ok (snd r)"
    unfolding r_def by simp_all
  have notin: "valid ! k \<notin> set (take k valid)"
    by (rule nth_notin_take[OF assms(3) k(1)])
  have "map_of st (valid ! k) \<noteq> None" using assms(4) k(1) by simp
  then obtain d where d: "map_of st (valid ! k) = Some d" by blast
  then have dr: "map_of (snd r) (valid ! k) = Some d" using notin by (simp add: IH(4))
  have idx: "stash_index B (valid ! k) (snd r) = (d, snd r)"
    using dr by (simp add: stash_index_def)
  have step: "fold (fill_slot B valid) [0..<Suc k] (bk0, st)
      = ((fst r)[k := \<lparr>blk_id = valid ! k, data = d\<rparr>], erase (valid ! k) (snd r))"
    using fill_slot_eq[of B valid k "fst r" "snd r"] by (simp add: r_def[symmetric] idx)
  have tk: "set (take (Suc k) valid) = insert (valid ! k) (set (take k valid))"
    using k(1) by (simp add: take_Suc_conv_app_nth)
  have a: "length ((fst r)[k := \<lparr>blk_id = valid ! k, data = d\<rparr>]) = length bk0"
    by (simp add: IH(1))
  have b: "(fst r)[k := \<lparr>blk_id = valid ! k, data = d\<rparr>] ! z
      = \<lparr>blk_id = valid ! z, data = the (map_of st (valid ! z))\<rparr>" if "z < Suc k" for z
  proof (cases "z = k")
    case True
    then show ?thesis using k(2) d by (simp add: IH(1))
  next
    case False
    then have "z < k" using that by simp
    then show ?thesis using False by (simp add: IH(2))
  qed
  have c: "(fst r)[k := \<lparr>blk_id = valid ! k, data = d\<rparr>] ! z = bk0 ! z" if "Suc k \<le> z" for z
    using that by (simp add: IH(3))
  have e: "map_of (erase (valid ! k) (snd r))
      = (\<lambda>i. if i \<in> set (take (Suc k) valid) then None else map_of st i)"
    by (rule ext) (simp add: map_of_erase IH(4) tk)
  have f: "stash_ok (erase (valid ! k) (snd r))"
    by (rule stash_ok_erase[OF IH(5)])
  show ?case unfolding step fst_conv snd_conv using a b c e f by blast
qed

lemma invalidate_loop:
  "length (fold invalidate_slot [a..<b] bk) = length bk
   \<and> (\<forall>z. fold invalidate_slot [a..<b] bk ! z
        = (if a \<le> z \<and> z < b \<and> z < length bk
           then (bk ! z)\<lparr>blk_id := invalid_block\<rparr> else bk ! z))"
proof (induction b)
  case 0
  then show ?case by simp
next
  case (Suc b)
  show ?case
  proof (cases "a \<le> b")
    case False
    then show ?thesis by simp
  next
    case True
    define r where "r = fold invalidate_slot [a..<b] bk"
    from Suc have IH: "length r = length bk"
      "\<And>z. r ! z = (if a \<le> z \<and> z < b \<and> z < length bk
           then (bk ! z)\<lparr>blk_id := invalid_block\<rparr> else bk ! z)"
      unfolding r_def by simp_all
    have step: "fold invalidate_slot [a..<Suc b] bk = r[b := (r ! b)\<lparr>blk_id := invalid_block\<rparr>]"
      using True by (simp add: r_def invalidate_slot_def)
    have rb: "r ! b = bk ! b" by (simp add: IH(2))
    have "r[b := (r ! b)\<lparr>blk_id := invalid_block\<rparr>] ! z
        = (if a \<le> z \<and> z < Suc b \<and> z < length bk
           then (bk ! z)\<lparr>blk_id := invalid_block\<rparr> else bk ! z)" for z
    proof (cases "z = b")
      case zb: True
      show ?thesis
      proof (cases "b < length bk")
        case True
        then show ?thesis using zb \<open>a \<le> b\<close> by (simp add: IH(1) rb)
      next
        case False
        then have "r[b := (r ! b)\<lparr>blk_id := invalid_block\<rparr>] = r"
          by (simp add: IH(1) list_update_beyond)
        then show ?thesis using zb False by (simp add: rb)
      qed
    next
      case False
      then show ?thesis by (auto simp: IH(2))
    qed
    then show ?thesis
      unfolding step by (simp add: IH(1))
  qed
qed

subsection \<open>One level\<close>

lemma holds_at_update:
  assumes "n < length bks"
  shows "holds_at (bks[n := bucket]) n' z i \<longleftrightarrow>
     (if n' = n then z < length bucket \<and> blk_id (bucket ! z) = i \<and> i \<noteq> invalid_block
      else holds_at bks n' z i)"
  using assms by (auto simp: holds_at_def)

lemma write_level_mid_inv:
  assumes inv: "mid_inv L N D bks pm st"
    and n: "n \<in> D" "n < length bks" and h: "h \<le> L"
    and N: "N \<le> invalid_block"
    and sel: "distinct sel"
      "\<forall>i\<in>set sel. map_of st i \<noteq> None \<and> n = getNodeOnPath L (pm ! i) h"
    and bk: "length sel \<le> length bucket"
      "\<forall>z<length sel. bucket ! z = \<lparr>blk_id = sel ! z, data = the (map_of st (sel ! z))\<rparr>"
      "\<forall>z. length sel \<le> z \<and> z < length bucket \<longrightarrow> blk_id (bucket ! z) = invalid_block"
    and st': "map_of st' = (\<lambda>i. if i \<in> set sel then None else map_of st i)" "stash_ok st'"
  shows "mid_inv L N (D - {n}) (bks[n := bucket]) pm st'
     \<and> (\<forall>i d. content (D - {n}) (bks[n := bucket]) st' i d \<longleftrightarrow> content D bks st i d)"
proof -
  from inv have ok: "tree_ok L N D bks pm st"
    and lt: "\<And>k d. map_of st k = Some d \<Longrightarrow> k < N"
    unfolding mid_inv_def by blast+
  have live: "i < N \<and> map_of st i = None \<and> (\<exists>h\<le>L. m = getNodeOnPath L (pm ! i) h)"
    and uniq: "\<And>m' z'. m' \<notin> D \<Longrightarrow> holds_at bks m' z' i \<Longrightarrow> m' = m \<and> z' = z"
    if "m \<notin> D" "holds_at bks m z i" for m z i
    using ok that unfolding tree_ok_def by blast+
  have sel_lt: "i < N" and sel_valid: "i \<noteq> invalid_block" if "i \<in> set sel" for i
  proof -
    from sel(2) that obtain d where "map_of st i = Some d" by blast
    then show "i < N" by (rule lt)
    then show "i \<noteq> invalid_block" using N by simp
  qed
  have new: "(z < length bucket \<and> blk_id (bucket ! z) = i \<and> i \<noteq> invalid_block)
      \<longleftrightarrow> (z < length sel \<and> sel ! z = i)" for z i
  proof (cases "z < length sel")
    case True
    then have "sel ! z \<in> set sel" by simp
    then show ?thesis using True bk(1,2) sel_valid by auto
  next
    case False
    then show ?thesis using bk(3) by auto
  qed
  have hold: "holds_at (bks[n := bucket]) m z i \<longleftrightarrow>
      (if m = n then z < length sel \<and> sel ! z = i else holds_at bks m z i)" for m z i
    using holds_at_update[OF n(2)] new by simp
  have other: "m \<notin> D" if "m \<notin> D - {n}" "m \<noteq> n" for m using that by simp
  have tree: "tree_ok L N (D - {n}) (bks[n := bucket]) pm st'"
    unfolding tree_ok_def
  proof (intro allI impI)
    fix m z i
    assume a: "m \<notin> D - {n} \<and> holds_at (bks[n := bucket]) m z i"
    show "i < N \<and> map_of st' i = None \<and> (\<exists>h\<le>L. m = getNodeOnPath L (pm ! i) h)
        \<and> (\<forall>m' z'. m' \<notin> D - {n} \<and> holds_at (bks[n := bucket]) m' z' i \<longrightarrow> m' = m \<and> z' = z)"
    proof (cases "m = n")
      case True
      with a have z: "z < length sel" "sel ! z = i" by (simp_all add: hold)
      then have i: "i \<in> set sel" by auto
      have U: "m' = m \<and> z' = z"
        if "m' \<notin> D - {n} \<and> holds_at (bks[n := bucket]) m' z' i" for m' z'
      proof (cases "m' = n")
        case m': True
        with that have "z' < length sel" "sel ! z' = i" by (simp_all add: hold)
        then have "sel ! z' = sel ! z" "z' < length sel" using z by simp_all
        then have "z' = z" using z(1) sel(1) by (simp add: nth_eq_iff_index_eq)
        then show ?thesis using m' True by simp
      next
        case False
        with that have "m' \<notin> D" "holds_at bks m' z' i" by (simp_all add: hold)
        from live[OF this] sel(2) i show ?thesis by blast
      qed
      show ?thesis
        using sel_lt[OF i] i sel(2) h True U by (auto simp: st'(1))
    next
      case False
      with a have m: "m \<notin> D" "holds_at bks m z i" by (simp_all add: hold)
      note l = live[OF m]
      have U: "m' = m \<and> z' = z"
        if "m' \<notin> D - {n} \<and> holds_at (bks[n := bucket]) m' z' i" for m' z'
      proof (cases "m' = n")
        case True
        with that have "z' < length sel" "sel ! z' = i" by (simp_all add: hold)
        then have "i \<in> set sel" by auto
        with sel(2) l show ?thesis by blast
      next
        case False
        with that have "m' \<notin> D" "holds_at bks m' z' i" by (simp_all add: hold)
        from uniq[OF m this] show ?thesis .
      qed
      show ?thesis using l U by (auto simp: st'(1))
    qed
  qed
  have keys: "k < N" if "map_of st' k = Some d" for k d
  proof -
    from that have "map_of st k = Some d" by (simp add: st'(1) split: if_splits)
    then show ?thesis by (rule lt)
  qed
  have cont: "content (D - {n}) (bks[n := bucket]) st' i d \<longleftrightarrow> content D bks st i d" for i d
  proof
    assume "content (D - {n}) (bks[n := bucket]) st' i d"
    then consider (stash) "map_of st' i = Some d"
      | (tree) m z where "m \<notin> D - {n}" "holds_at (bks[n := bucket]) m z i"
          "data (bks[n := bucket] ! m ! z) = d"
      unfolding content_def by blast
    then show "content D bks st i d"
    proof cases
      case stash
      then have "map_of st i = Some d" by (simp add: st'(1) split: if_splits)
      then show ?thesis by (simp add: content_def)
    next
      case tree
      show ?thesis
      proof (cases "m = n")
        case True
        with tree(2) have z: "z < length sel" "sel ! z = i" by (simp_all add: hold)
        then have "i \<in> set sel" by auto
        with sel(2) obtain d' where d': "map_of st i = Some d'" by blast
        have "data (bucket ! z) = d'" using bk(2) z d' by simp
        then have "d' = d" using tree(3) True n(2) by simp
        then show ?thesis using d' by (simp add: content_def)
      next
        case False
        with tree have "m \<notin> D" "holds_at bks m z i" "data (bks ! m ! z) = d"
          by (simp_all add: hold)
        then show ?thesis unfolding content_def by blast
      qed
    qed
  next
    assume "content D bks st i d"
    then consider (stash) "map_of st i = Some d"
      | (tree) m z where "m \<notin> D" "holds_at bks m z i" "data (bks ! m ! z) = d"
      unfolding content_def by blast
    then show "content (D - {n}) (bks[n := bucket]) st' i d"
    proof cases
      case stash
      show ?thesis
      proof (cases "i \<in> set sel")
        case True
        then obtain z where z: "z < length sel" "sel ! z = i"
          by (auto simp: in_set_conv_nth)
        then have "holds_at (bks[n := bucket]) n z i" by (simp add: hold)
        moreover have "data (bks[n := bucket] ! n ! z) = d"
          using bk(2) z stash n(2) by simp
        moreover have "n \<notin> D - {n}" by simp
        ultimately show ?thesis unfolding content_def by blast
      next
        case False
        then show ?thesis using stash by (simp add: content_def st'(1))
      qed
    next
      case tree
      then have "m \<noteq> n" using n(1) by blast
      then have "m \<notin> D - {n}" "holds_at (bks[n := bucket]) m z i"
        "data (bks[n := bucket] ! m ! z) = d"
        using tree by (simp_all add: hold)
      then show ?thesis unfolding content_def by blast
    qed
  qed
  show ?thesis
    unfolding mid_inv_def using tree st'(2) keys cont by blast
qed

lemma getIntersectingBlocks_props:
  assumes "stash_ok (stash s)"
  shows "distinct (getIntersectingBlocks L pos l s)"
    and "\<forall>i\<in>set (getIntersectingBlocks L pos l s).
           map_of (stash s) i \<noteq> None
           \<and> getNodeOnPath L pos l = getNodeOnPath L (position_map s ! i) l"
proof -
  show "distinct (getIntersectingBlocks L pos l s)"
    using assms by (simp add: getIntersectingBlocks_def stash_ok_def)
  show "\<forall>i\<in>set (getIntersectingBlocks L pos l s).
           map_of (stash s) i \<noteq> None
           \<and> getNodeOnPath L pos l = getNodeOnPath L (position_map s ! i) l"
    by (auto simp: getIntersectingBlocks_def map_of_eq_None_iff)
qed

lemma writePath_level_result:
  fixes L B Z pos l :: nat and s :: PathORAM
  defines "sel \<equiv> take Z (getIntersectingBlocks L pos l s)"
  assumes so: "stash_ok (stash s)"
  shows "\<exists>bucket.
      buckets (writePath_level L B Z pos l s) = (buckets s)[getNodeOnPath L pos l := bucket]
      \<and> length bucket = Z
      \<and> length sel \<le> length bucket
      \<and> (\<forall>z<length sel. bucket ! z
            = \<lparr>blk_id = sel ! z, data = the (map_of (stash s) (sel ! z))\<rparr>)
      \<and> (\<forall>z. length sel \<le> z \<and> z < length bucket \<longrightarrow> blk_id (bucket ! z) = invalid_block)
      \<and> map_of (stash (writePath_level L B Z pos l s))
          = (\<lambda>i. if i \<in> set sel then None else map_of (stash s) i)
      \<and> stash_ok (stash (writePath_level L B Z pos l s))"
proof -
  define valid where "valid = getIntersectingBlocks L pos l s"
  define m where "m = min (length valid) Z"
  define r where "r = fold (fill_slot B valid) [0..<m] (replicate Z (default_IDBlock B), stash s)"
  define bucket where "bucket = fold invalidate_slot [length valid..<Z] (fst r)"
  have dv: "distinct valid" and pv: "\<forall>i\<in>set valid. map_of (stash s) i \<noteq> None"
    using getIntersectingBlocks_props[OF so, of L pos l] unfolding valid_def by blast+
  have m1: "m \<le> length valid" and m2: "m \<le> length (replicate Z (default_IDBlock B))"
    by (simp_all add: m_def)
  from fill_loop[OF m1 m2 dv pv so, of B]
  have F: "length (fst r) = Z"
    "\<And>z. z < m \<Longrightarrow> fst r ! z = \<lparr>blk_id = valid ! z, data = the (map_of (stash s) (valid ! z))\<rparr>"
    "\<And>z. m \<le> z \<Longrightarrow> fst r ! z = replicate Z (default_IDBlock B) ! z"
    "map_of (snd r) = (\<lambda>i. if i \<in> set (take m valid) then None else map_of (stash s) i)"
    "stash_ok (snd r)"
    unfolding r_def by simp_all
  from invalidate_loop[of "length valid" Z "fst r"]
  have V: "length bucket = Z"
    "\<And>z. bucket ! z = (if length valid \<le> z \<and> z < Z \<and> z < length (fst r)
           then (fst r ! z)\<lparr>blk_id := invalid_block\<rparr> else fst r ! z)"
    unfolding bucket_def by (simp_all add: F(1))
  have "take (min (length valid) Z) valid = take Z valid"
    by (cases "length valid \<le> Z") (simp_all add: min_def)
  then have sel: "sel = take m valid" "length sel = m"
    by (simp_all add: sel_def valid_def[symmetric] m_def min.commute)
  have res: "writePath_level L B Z pos l s =
      s\<lparr>buckets := (buckets s)[getNodeOnPath L pos l := bucket],
        stash := snd r,
        trace := trace s @ [BucketWrite (getNodeOnPath L pos l)]\<rparr>"
    by (simp add: writePath_level_def Let_def valid_def m_def r_def bucket_def)
  have a: "bucket ! z = \<lparr>blk_id = sel ! z, data = the (map_of (stash s) (sel ! z))\<rparr>"
    if "z < length sel" for z
  proof -
    have "z < m" "z < length valid" using that sel(2) m1 by simp_all
    then show ?thesis by (simp add: V(2) F(2) sel(1))
  qed
  have b: "blk_id (bucket ! z) = invalid_block" if "length sel \<le> z" "z < length bucket" for z
  proof (cases "length valid \<le> z")
    case True
    then show ?thesis using that by (simp add: V F(1))
  next
    case False
    then have "m \<le> z" "z < Z" using that sel(2) V(1) by simp_all
    then show ?thesis using False by (simp add: V(2) F(3) default_IDBlock_def)
  qed
  show ?thesis
  proof (intro exI[where x = bucket] conjI)
    show "buckets (writePath_level L B Z pos l s) = (buckets s)[getNodeOnPath L pos l := bucket]"
      by (simp add: res)
    show "length bucket = Z" by (rule V(1))
    show "length sel \<le> length bucket" by (simp add: sel(2) V(1) m_def)
    show "\<forall>z<length sel. bucket ! z
            = \<lparr>blk_id = sel ! z, data = the (map_of (stash s) (sel ! z))\<rparr>"
      using a by blast
    show "\<forall>z. length sel \<le> z \<and> z < length bucket \<longrightarrow> blk_id (bucket ! z) = invalid_block"
      using b by blast
    show "map_of (stash (writePath_level L B Z pos l s))
          = (\<lambda>i. if i \<in> set sel then None else map_of (stash s) i)"
      unfolding res sel(1) using F(4) by simp
    show "stash_ok (stash (writePath_level L B Z pos l s))"
      unfolding res using F(5) by simp
  qed
qed

lemma writePath_level_mid_inv:
  assumes inv: "mid_inv L N D (buckets s) (position_map s) (stash s)"
    and n: "getNodeOnPath L pos l \<in> D" "getNodeOnPath L pos l < length (buckets s)"
    and l: "l \<le> L" and N: "N \<le> invalid_block"
  shows "mid_inv L N (D - {getNodeOnPath L pos l}) (buckets (writePath_level L B Z pos l s))
        (position_map (writePath_level L B Z pos l s)) (stash (writePath_level L B Z pos l s))
     \<and> (\<forall>i d. content (D - {getNodeOnPath L pos l}) (buckets (writePath_level L B Z pos l s))
                 (stash (writePath_level L B Z pos l s)) i d
              \<longleftrightarrow> content D (buckets s) (stash s) i d)"
proof -
  have so: "stash_ok (stash s)" using inv by (simp add: mid_inv_def)
  define sel where "sel = take Z (getIntersectingBlocks L pos l s)"
  from writePath_level_result[OF so, of L B Z pos l]
  obtain bucket where B:
    "buckets (writePath_level L B Z pos l s) = (buckets s)[getNodeOnPath L pos l := bucket]"
    "length sel \<le> length bucket"
    "\<forall>z<length sel. bucket ! z
            = \<lparr>blk_id = sel ! z, data = the (map_of (stash s) (sel ! z))\<rparr>"
    "\<forall>z. length sel \<le> z \<and> z < length bucket \<longrightarrow> blk_id (bucket ! z) = invalid_block"
    "map_of (stash (writePath_level L B Z pos l s))
          = (\<lambda>i. if i \<in> set sel then None else map_of (stash s) i)"
    "stash_ok (stash (writePath_level L B Z pos l s))"
    unfolding sel_def by blast
  have d: "distinct sel"
    using getIntersectingBlocks_props(1)[OF so, of L pos l] by (simp add: sel_def)
  have p: "\<forall>i\<in>set sel. map_of (stash s) i \<noteq> None
      \<and> getNodeOnPath L pos l = getNodeOnPath L (position_map s ! i) l"
  proof
    fix i assume "i \<in> set sel"
    then have "i \<in> set (getIntersectingBlocks L pos l s)"
      unfolding sel_def by (rule in_set_takeD)
    with getIntersectingBlocks_props(2)[OF so, of L pos l]
    show "map_of (stash s) i \<noteq> None
      \<and> getNodeOnPath L pos l = getNodeOnPath L (position_map s ! i) l"
      by blast
  qed
  show ?thesis
    unfolding B(1) writePath_level_frame
    by (rule write_level_mid_inv[OF inv n l N d p B(2,3,4,5,6)])
qed

lemma write_levels:
  assumes "mid_inv L N D (buckets s) (position_map s) (stash s)"
    and "distinct (map (getNodeOnPath L pos) ls)"
    and "\<forall>l\<in>set ls. getNodeOnPath L pos l \<in> D
           \<and> getNodeOnPath L pos l < length (buckets s) \<and> l \<le> L"
    and N: "N \<le> invalid_block"
  shows "mid_inv L N (D - getNodeOnPath L pos ` set ls)
        (buckets (fold (writePath_level L B Z pos) ls s))
        (position_map (fold (writePath_level L B Z pos) ls s))
        (stash (fold (writePath_level L B Z pos) ls s))
     \<and> (\<forall>i d. content (D - getNodeOnPath L pos ` set ls)
                 (buckets (fold (writePath_level L B Z pos) ls s))
                 (stash (fold (writePath_level L B Z pos) ls s)) i d
              \<longleftrightarrow> content D (buckets s) (stash s) i d)"
  using assms(1,2,3)
proof (induction ls arbitrary: D s)
  case Nil
  then show ?case by simp
next
  case (Cons l ls)
  let ?f = "getNodeOnPath L pos"
  let ?s = "writePath_level L B Z pos l s"
  have n: "?f l \<in> D" "?f l < length (buckets s)" "l \<le> L" using Cons.prems(3) by simp_all
  from writePath_level_mid_inv[OF Cons.prems(1) n(1,2,3) N, of B Z]
  have step: "mid_inv L N (D - {?f l}) (buckets ?s) (position_map ?s) (stash ?s)"
    and cont: "\<And>i d. content (D - {?f l}) (buckets ?s) (stash ?s) i d
        \<longleftrightarrow> content D (buckets s) (stash s) i d"
    by blast+
  have d: "distinct (map ?f ls)" using Cons.prems(2) by simp
  have "?f l \<notin> ?f ` set ls" using Cons.prems(2) by simp
  then have ne: "?f l' \<noteq> ?f l" if "l' \<in> set ls" for l' using that by (metis imageI)
  have r: "\<forall>l'\<in>set ls. ?f l' \<in> D - {?f l} \<and> ?f l' < length (buckets ?s) \<and> l' \<le> L"
    using Cons.prems(3) ne by simp
  have eq: "D - {?f l} - ?f ` set ls = D - ?f ` set (l # ls)" by auto
  have fs: "fold (writePath_level L B Z pos) (l # ls) s = fold (writePath_level L B Z pos) ls ?s"
    by simp
  from Cons.IH[OF step d r]
  have A: "mid_inv L N (D - {?f l} - ?f ` set ls)
        (buckets (fold (writePath_level L B Z pos) ls ?s))
        (position_map (fold (writePath_level L B Z pos) ls ?s))
        (stash (fold (writePath_level L B Z pos) ls ?s))"
    and C: "\<And>i d. content (D - {?f l} - ?f ` set ls)
                 (buckets (fold (writePath_level L B Z pos) ls ?s))
                 (stash (fold (writePath_level L B Z pos) ls ?s)) i d
              \<longleftrightarrow> content (D - {?f l}) (buckets ?s) (stash ?s) i d"
    by blast+
  show ?case
    unfolding fs eq[symmetric] using A C cont by blast
qed

section \<open>One access preserves the invariant\<close>

lemma block_count_N_le_invalid: "block_count_N L Z \<le> invalid_block"
proof -
  have "block_count_N L Z < 2 ^ 64" by (simp add: block_count_N_def wrap64_def)
  then show ?thesis by (simp add: invalid_block_def)
qed

lemma path_nodes:
  assumes L: "L \<le> 62" and pos: "pos < leaf_count L"
  shows "distinct (map (getNodeOnPath L pos) [0..<Suc L])"
    and "\<forall>l\<in>set [0..<Suc L]. getNodeOnPath L pos l < bucket_count L \<and> l \<le> L"
proof -
  have p: "pos < 2 ^ L" using pos by (simp add: leaf_count_def)
  have "inj_on (getNodeOnPath L pos) (set [0..<Suc L])"
  proof (rule inj_onI)
    fix x y assume xy: "x \<in> set [0..<Suc L]" "y \<in> set [0..<Suc L]"
      and e: "getNodeOnPath L pos x = getNodeOnPath L pos y"
    from xy have "x \<le> L" "y \<le> L" by auto
    then show "x = y" by (rule getNodeOnPath_level_unique[OF L p _ p _ e])
  qed
  then show "distinct (map (getNodeOnPath L pos) [0..<Suc L])"
    by (simp add: distinct_map)
  show "\<forall>l\<in>set [0..<Suc L]. getNodeOnPath L pos l < bucket_count L \<and> l \<le> L"
    using getNodeOnPath_in_tree[OF L p] by simp
qed

text \<open>No block on the path of its own leaf lives outside that path.\<close>

lemma not_live_off_path:
  assumes ok: "tree_ok L N D bks pm st"
    and P: "\<forall>h\<le>L. getNodeOnPath L (pm ! blk) h \<in> D"
  shows "m \<notin> D \<Longrightarrow> \<not> holds_at bks m z blk"
  using ok P unfolding tree_ok_def by blast

lemma tree_ok_remap:
  assumes ok: "tree_ok L N D bks pm st"
    and P: "\<forall>h\<le>L. getNodeOnPath L (pm ! blk) h \<in> D"
  shows "tree_ok L N D bks (pm[blk := r]) st"
  unfolding tree_ok_def
proof (intro allI impI)
  fix n z i
  assume a: "n \<notin> D \<and> holds_at bks n z i"
  then have "i \<noteq> blk" using not_live_off_path[OF ok P] by blast
  then have eq: "pm[blk := r] ! i = pm ! i" by simp
  from ok a have "i < N \<and> map_of st i = None
      \<and> (\<exists>h\<le>L. n = getNodeOnPath L (pm ! i) h)
      \<and> (\<forall>n' z'. n' \<notin> D \<and> holds_at bks n' z' i \<longrightarrow> n' = n \<and> z' = z)"
    unfolding tree_ok_def by blast
  then show "i < N \<and> map_of st i = None
      \<and> (\<exists>h\<le>L. n = getNodeOnPath L (pm[blk := r] ! i) h)
      \<and> (\<forall>n' z'. n' \<notin> D \<and> holds_at bks n' z' i \<longrightarrow> n' = n \<and> z' = z)"
    unfolding eq .
qed

lemma mid_inv_stash_upd:
  assumes inv: "mid_inv L N D bks pm st"
    and off: "\<And>m z. m \<notin> D \<Longrightarrow> \<not> holds_at bks m z blk"
    and blk: "blk < N"
    and st': "stash_ok st'" "\<And>i. i \<noteq> blk \<Longrightarrow> map_of st' i = map_of st i"
  shows "mid_inv L N D bks pm st'"
proof -
  from inv have ok: "tree_ok L N D bks pm st"
    and lt: "\<And>k d. map_of st k = Some d \<Longrightarrow> k < N"
    unfolding mid_inv_def by blast+
  have "tree_ok L N D bks pm st'"
    unfolding tree_ok_def
  proof (intro allI impI)
    fix n z i
    assume a: "n \<notin> D \<and> holds_at bks n z i"
    then have "i \<noteq> blk" using off by blast
    then have eq: "map_of st' i = map_of st i" by (rule st'(2))
    from ok a have "i < N \<and> map_of st i = None
        \<and> (\<exists>h\<le>L. n = getNodeOnPath L (pm ! i) h)
        \<and> (\<forall>n' z'. n' \<notin> D \<and> holds_at bks n' z' i \<longrightarrow> n' = n \<and> z' = z)"
      unfolding tree_ok_def by blast
    then show "i < N \<and> map_of st' i = None
        \<and> (\<exists>h\<le>L. n = getNodeOnPath L (pm ! i) h)
        \<and> (\<forall>n' z'. n' \<notin> D \<and> holds_at bks n' z' i \<longrightarrow> n' = n \<and> z' = z)"
      unfolding eq .
  qed
  moreover have "k < N" if "map_of st' k = Some d" for k d
  proof (cases "k = blk")
    case True
    then show ?thesis using blk by simp
  next
    case False
    then have "map_of st k = Some d" using that st'(2) by simp
    then show ?thesis by (rule lt)
  qed
  ultimately show ?thesis unfolding mid_inv_def using st'(1) by blast
qed

lemma content_off_path:
  assumes "\<And>m z. m \<notin> D \<Longrightarrow> \<not> holds_at bks m z blk"
  shows "content D bks st blk d \<longleftrightarrow> map_of st blk = Some d"
  using assms unfolding content_def by blast

lemma content_other:
  assumes "map_of st' i = map_of st i"
  shows "content D bks st' i d \<longleftrightarrow> content D bks st i d"
  using assms unfolding content_def by simp

lemma stash_op_stash:
  "map_of (stash (snd (stash_op B op blk b s)))
     = (case op of
          Read \<Rightarrow> (if map_of (stash s) blk = None
                    then (map_of (stash s))(blk \<mapsto> zero_block B) else map_of (stash s))
        | Write \<Rightarrow> (map_of (stash s))(blk \<mapsto> b))"
  "stash_ok (stash s) \<Longrightarrow> stash_ok (stash (snd (stash_op B op blk b s)))"
  "fst (stash_op B op blk b s)
     = (case op of
          Read \<Rightarrow> (case map_of (stash s) blk of Some v \<Rightarrow> v | None \<Rightarrow> zero_block B)
        | Write \<Rightarrow> b)"
proof -
  have r: "stash_op B Read blk b s
      = (fst (stash_index B blk (stash s)), s\<lparr>stash := snd (stash_index B blk (stash s))\<rparr>)"
    by (simp add: stash_op_def split: prod.splits)
  have w: "stash_op B Write blk b s = (b, s\<lparr>stash := stash_assign B blk b (stash s)\<rparr>)"
    by (simp add: stash_op_def)
  show "map_of (stash (snd (stash_op B op blk b s)))
     = (case op of
          Read \<Rightarrow> (if map_of (stash s) blk = None
                    then (map_of (stash s))(blk \<mapsto> zero_block B) else map_of (stash s))
        | Write \<Rightarrow> (map_of (stash s))(blk \<mapsto> b))"
    by (cases op) (simp_all add: r w map_of_stash_index map_of_stash_assign)
  show "stash_ok (stash s) \<Longrightarrow> stash_ok (stash (snd (stash_op B op blk b s)))"
    by (cases op) (simp_all add: r w stash_ok_stash_index stash_ok_stash_assign)
  show "fst (stash_op B op blk b s)
     = (case op of
          Read \<Rightarrow> (case map_of (stash s) blk of Some v \<Rightarrow> v | None \<Rightarrow> zero_block B)
        | Write \<Rightarrow> b)"
    by (cases op) (simp_all add: r w fst_stash_index)
qed

lemma access_step:
  assumes L: "L \<le> 62" and inv: "oram_inv L Z s" and blk: "blk < block_count_N L Z"
  shows "oram_inv L Z (snd (access L B Z op blk b s))"
    and "fst (access L B Z op blk b s) =
      Inr (case op of
             Read \<Rightarrow> (case map_of (stash (readPath L (position_map s ! blk) (remap blk s))) blk of
                        Some v \<Rightarrow> v | None \<Rightarrow> zero_block B)
           | Write \<Rightarrow> b)"
    and "map_of (stash (readPath L (position_map s ! blk) (remap blk s))) blk = Some d
           \<longleftrightarrow> stored s blk d"
    and "i \<noteq> blk \<Longrightarrow> stored (snd (access L B Z op blk b s)) i d \<longleftrightarrow> stored s i d"
    and "stored (snd (access L B Z op blk b s)) blk d \<longleftrightarrow>
           (case op of
              Read \<Rightarrow> stored s blk d \<or> ((\<forall>d'. \<not> stored s blk d') \<and> d = zero_block B)
            | Write \<Rightarrow> d = b)"
proof -
  define N where "N = block_count_N L Z"
  define pm where "pm = position_map s"
  define bks where "bks = buckets s"
  define st where "st = stash s"
  define pos where "pos = pm ! blk"
  define r where "r = mt s 0"
  define f where "f = getNodeOnPath L pos"
  define P where "P = f ` set [0..<Suc L]"
  define s2 where "s2 = readPath L pos (remap blk s)"
  define s3 where "s3 = snd (stash_op B op blk b s2)"
  define s4 where "s4 = writePath L B Z pos s3"
  from inv have I: "length bks = bucket_count L" "length pm = N"
    "\<And>i. i < N \<Longrightarrow> pm ! i < leaf_count L" "mt_in_range L (mt s)"
    and M0: "mid_inv L N {} bks pm st"
    unfolding oram_inv_def N_def pm_def bks_def st_def by blast+
  have acc: "access L B Z op blk b s = (Inr (fst (stash_op B op blk b s2)), s4)"
    using access_success[OF blk]
    by (simp add: s2_def s3_def s4_def pos_def pm_def)
  have pos: "pos < leaf_count L" using I(3) blk by (simp add: pos_def N_def)
  note nodes = path_nodes[OF L pos, folded f_def]
  have nodes': "\<forall>l\<in>set [0..<Suc L]. f l \<notin> {} \<and> f l < length bks"
    using nodes(2) by (simp add: I(1) f_def)
  have b2: "buckets s2 = bks" and p2: "position_map s2 = pm[blk := r]"
    and m2: "mt s2 = (\<lambda>i. mt s (Suc i))"
    by (simp_all add: s2_def bks_def pm_def r_def)
  have st2: "stash s2 = fold (\<lambda>l. readBucket (bks ! f l)) [0..<Suc L] st"
    by (simp add: s2_def stash_readPath bks_def st_def f_def)
  from read_levels[OF M0 nodes(1) nodes', folded st2]
  have M2: "mid_inv L N P bks pm (stash s2)"
    and C2: "\<And>i d. content P bks (stash s2) i d \<longleftrightarrow> content {} bks st i d"
    by (simp_all add: P_def)
  have mem: "h \<in> set [0..<Suc L]" if "h \<le> L" for h
    using that by (simp del: upt_Suc)
  have onP: "\<forall>h\<le>L. getNodeOnPath L (pm ! blk) h \<in> P"
    unfolding P_def f_def pos_def using mem by blast
  have T2: "tree_ok L N P bks pm (stash s2)" using M2 by (simp add: mid_inv_def)
  have off: "\<not> holds_at bks m z blk" if "m \<notin> P" for m z
    using not_live_off_path[OF T2 onP that] .
  have M2': "mid_inv L N P bks (pm[blk := r]) (stash s2)"
    using M2 tree_ok_remap[OF T2 onP, of r] by (simp add: mid_inv_def)
  have b3: "buckets s3 = bks" and p3: "position_map s3 = pm[blk := r]"
    and m3: "mt s3 = (\<lambda>i. mt s (Suc i))"
    by (simp_all add: s3_def b2 p2 m2)
  have so2: "stash_ok (stash s2)" using M2 by (simp add: mid_inv_def)
  have so3: "stash_ok (stash s3)"
    unfolding s3_def by (rule stash_op_stash(2)[OF so2])
  have map3: "map_of (stash s3) i = map_of (stash s2) i" if "i \<noteq> blk" for i
    using that unfolding s3_def stash_op_stash(1) by (cases op) simp_all
  have map3blk: "map_of (stash s3) blk
      = (case op of
           Read \<Rightarrow> (case map_of (stash s2) blk of Some v \<Rightarrow> Some v | None \<Rightarrow> Some (zero_block B))
         | Write \<Rightarrow> Some b)"
    unfolding s3_def stash_op_stash(1) by (cases op) (auto split: option.splits)
  have M3: "mid_inv L N P (buckets s3) (position_map s3) (stash s3)"
    unfolding b3 p3
    using mid_inv_stash_upd[OF M2' off _ so3 map3] blk by (simp add: N_def)
  have d4: "distinct (map (getNodeOnPath L pos) (rev [0..<Suc L]))"
    using nodes(1) by (simp add: f_def rev_map[symmetric] del: upt_Suc)
  have n4: "\<forall>l\<in>set (rev [0..<Suc L]). getNodeOnPath L pos l \<in> P
      \<and> getNodeOnPath L pos l < length (buckets s3) \<and> l \<le> L"
    using nodes(2) by (simp add: b3 I(1) P_def f_def del: upt_Suc)
  have N: "N \<le> invalid_block" unfolding N_def by (rule block_count_N_le_invalid)
  have PP: "P - getNodeOnPath L pos ` set (rev [0..<Suc L]) = {}"
    by (simp add: P_def f_def del: upt_Suc)
  from write_levels[OF M3 d4 n4 N, of B Z, folded writePath_def, folded s4_def, unfolded PP]
  have M4: "mid_inv L N {} (buckets s4) (position_map s4) (stash s4)"
    and C4: "\<And>i d. content {} (buckets s4) (stash s4) i d
        \<longleftrightarrow> content P (buckets s3) (stash s3) i d"
    by blast+
  have l4: "length (buckets s4) = bucket_count L" and p4: "position_map s4 = pm[blk := r]"
    and m4: "mt s4 = (\<lambda>i. mt s (Suc i))"
    by (simp_all add: s4_def b3 p3 m3 I(1))
  have r: "r < leaf_count L" unfolding r_def by (rule mt_in_range_lt[OF I(4)])
  have pm4: "pm[blk := r] ! i < leaf_count L" if "i < N" for i
    using that r I(2,3) by (cases "i = blk") simp_all
  have mt4: "mt_in_range L (\<lambda>i. mt s (Suc i))"
    using I(4) by (simp add: mt_in_range_def)
  have inv4: "oram_inv L Z s4"
    unfolding oram_inv_def l4 p4 m4
    using M4 pm4 mt4 I(2) by (simp add: N_def[symmetric] p4)
  show "oram_inv L Z (snd (access L B Z op blk b s))"
    using inv4 by (simp add: acc)
  show "fst (access L B Z op blk b s) =
      Inr (case op of
             Read \<Rightarrow> (case map_of (stash (readPath L (position_map s ! blk) (remap blk s))) blk of
                        Some v \<Rightarrow> v | None \<Rightarrow> zero_block B)
           | Write \<Rightarrow> b)"
    unfolding acc by (simp add: stash_op_stash(3) s2_def pos_def pm_def)
  have rd: "map_of (stash s2) blk = Some d \<longleftrightarrow> stored s blk d" for d
    using content_off_path[of P bks blk "stash s2" d] off C2[of blk d]
    by (simp add: stored_def bks_def st_def)
  show "map_of (stash (readPath L (position_map s ! blk) (remap blk s))) blk = Some d
           \<longleftrightarrow> stored s blk d"
    using rd by (simp add: s2_def pos_def pm_def)
  have st4: "stored s4 i d \<longleftrightarrow> content P bks (stash s3) i d" for i d
    using C4[of i d] by (simp add: stored_def b3)
  show "stored (snd (access L B Z op blk b s)) i d \<longleftrightarrow> stored s i d" if "i \<noteq> blk"
  proof -
    have "content P bks (stash s3) i d \<longleftrightarrow> content P bks (stash s2) i d"
      by (rule content_other[OF map3[OF that]])
    then show ?thesis
      using st4[of i d] C2[of i d] by (simp add: acc stored_def bks_def st_def)
  qed
  have "stored s4 blk d \<longleftrightarrow> map_of (stash s3) blk = Some d"
    using st4[of blk d] content_off_path[of P bks blk "stash s3" d] off by simp
  also have "\<dots> \<longleftrightarrow> (case op of
              Read \<Rightarrow> stored s blk d \<or> ((\<forall>d'. \<not> stored s blk d') \<and> d = zero_block B)
            | Write \<Rightarrow> d = b)"
  proof (cases op)
    case Write
    then show ?thesis by (auto simp: map3blk)
  next
    case Read
    show ?thesis
    proof (cases "map_of (stash s2) blk")
      case None
      then have "\<forall>d'. \<not> stored s blk d'" using rd by simp
      then show ?thesis using None Read by (auto simp: map3blk)
    next
      case (Some v)
      then have "stored s blk v" using rd by simp
      moreover have "stored s blk d \<Longrightarrow> d = v" using rd[of d] Some by simp
      ultimately show ?thesis using Some Read by (auto simp: map3blk)
    qed
  qed
  finally show "stored (snd (access L B Z op blk b s)) blk d \<longleftrightarrow>
           (case op of
              Read \<Rightarrow> stored s blk d \<or> ((\<forall>d'. \<not> stored s blk d') \<and> d = zero_block B)
            | Write \<Rightarrow> d = b)"
    by (simp add: acc)
qed

text \<open>
  In an engine that satisfies the invariant the subscripts of an access are within their
  arrays: \<^verbatim>\<open>position_map[blk]\<close>, \<^verbatim>\<open>buckets[getNodeOnPath(pos, l)]\<close> for every level, and
  \<^verbatim>\<open>position_map[block_id]\<close> for every key of the stash.
\<close>

lemma subscripts_in_range:
  assumes L: "L \<le> 62" and inv: "oram_inv L Z s" and blk: "blk < block_count_N L Z"
  shows "blk < length (position_map s)"
    and "h \<le> L \<Longrightarrow> getNodeOnPath L (position_map s ! blk) h < length (buckets s)"
    and "k \<in> fst ` set (stash s) \<Longrightarrow> k < length (position_map s)"
proof -
  from inv have len: "length (buckets s) = bucket_count L"
    "length (position_map s) = block_count_N L Z"
    and pos: "position_map s ! blk < leaf_count L"
    and keys: "\<And>k d. map_of (stash s) k = Some d \<Longrightarrow> k < block_count_N L Z"
    using blk unfolding oram_inv_def mid_inv_def by blast+
  show "blk < length (position_map s)" using blk by (simp add: len)
  show "getNodeOnPath L (position_map s ! blk) h < length (buckets s)" if "h \<le> L"
    using path_nodes(2)[OF L pos] that by (simp add: len del: upt_Suc)
  show "k < length (position_map s)" if "k \<in> fst ` set (stash s)"
  proof -
    from that have "map_of (stash s) k \<noteq> None" by (simp add: map_of_eq_None_iff)
    then obtain d where "map_of (stash s) k = Some d" by blast
    then show ?thesis using keys by (simp add: len)
  qed
qed

section \<open>Sequences of accesses\<close>

lemma exec_ops_Nil [simp]: "exec_ops L B Z [] s = s"
  by (simp add: exec_ops_def)

lemma exec_ops_Cons [simp]:
  "exec_ops L B Z ((op, blk, b) # ops) s = exec_ops L B Z ops (snd (access L B Z op blk b s))"
  by (simp add: exec_ops_def)

lemma exec_ops_append [simp]:
  "exec_ops L B Z (ops @ ops') s = exec_ops L B Z ops' (exec_ops L B Z ops s)"
  by (simp add: exec_ops_def)

lemma abs_exec_Nil [simp]: "abs_exec N B [] m = m"
  by (simp add: abs_exec_def)

lemma abs_exec_Cons [simp]:
  "abs_exec N B ((op, blk, b) # ops) m
     = abs_exec N B ops (if blk < N then abs_step B op blk b m else m)"
  by (simp add: abs_exec_def)

lemma abs_exec_append [simp]:
  "abs_exec N B (ops @ ops') m = abs_exec N B ops' (abs_exec N B ops m)"
  by (simp add: abs_exec_def)

subsection \<open>The constructed engine\<close>

lemma not_holds_at_default:
  "\<not> holds_at (replicate m (replicate Z (default_IDBlock B))) n z i"
  by (auto simp: holds_at_def default_IDBlock_def)

lemma oram_inv_ctor:
  assumes "mt_in_range L g"
  shows "oram_inv L Z (PathORAM_ctor L B Z g)"
proof -
  have "mid_inv L (block_count_N L Z) {}
      (replicate (bucket_count L) (replicate Z (default_IDBlock B)))
      (map g [0..<block_count_N L Z]) []"
    by (simp add: mid_inv_def tree_ok_def not_holds_at_default stash_ok_def)
  moreover have "mt_in_range L (\<lambda>k. g (k + block_count_N L Z))"
    using assms by (simp add: mt_in_range_def)
  moreover have "\<forall>i<block_count_N L Z. map g [0..<block_count_N L Z] ! i < leaf_count L"
    using mt_in_range_lt[OF assms] by simp
  ultimately show ?thesis
    by (simp add: oram_inv_def PathORAM_ctor_fields)
qed

lemma abstracts_ctor: "abstracts (PathORAM_ctor L B Z g) Map.empty"
  by (simp add: abstracts_def stored_def content_def PathORAM_ctor_fields not_holds_at_default)

subsection \<open>Invariant and abstraction along a sequence\<close>

lemma access_inv:
  assumes "L \<le> 62" "oram_inv L Z s"
  shows "oram_inv L Z (snd (access L B Z op blk b s))"
proof (cases "blk < block_count_N L Z")
  case True
  then show ?thesis by (rule access_step(1)[OF assms])
next
  case False
  then show ?thesis using assms(2) by (simp add: access_failure)
qed

lemma exec_ops_inv:
  assumes "L \<le> 62" "oram_inv L Z s"
  shows "oram_inv L Z (exec_ops L B Z ops s)"
  using assms(2)
proof (induction ops arbitrary: s)
  case Nil
  then show ?case by simp
next
  case (Cons x ops)
  obtain op blk b where x: "x = (op, blk, b)" by (cases x) auto
  show ?case
    unfolding x exec_ops_Cons
    by (rule Cons.IH) (rule access_inv[OF assms(1) Cons.prems])
qed

lemma access_abs:
  assumes L: "L \<le> 62" and inv: "oram_inv L Z s" and blk: "blk < block_count_N L Z"
    and a: "abstracts s m"
  shows "abstracts (snd (access L B Z op blk b s)) (abs_step B op blk b m)"
    and "fst (access L B Z op blk b s)
      = Inr (case op of Read \<Rightarrow> (case m blk of Some v \<Rightarrow> v | None \<Rightarrow> zero_block B)
                      | Write \<Rightarrow> b)"
proof -
  note st = access_step[OF L inv blk]
  have A: "stored s i d \<longleftrightarrow> m i = Some d" for i d using a by (simp add: abstracts_def)
  have "stored (snd (access L B Z op blk b s)) i d \<longleftrightarrow> abs_step B op blk b m i = Some d" for i d
  proof (cases "i = blk")
    case False
    then show ?thesis
      using st(4)[OF False, where d = d and B = B and op = op and b = b] A[of i d]
      by (cases op) (simp_all add: abs_step_def)
  next
    case True
    show ?thesis
    proof (cases op)
      case Write
      then show ?thesis
        using st(5)[where d = d and B = B and op = op and b = b] True
        by (auto simp: abs_step_def)
    next
      case Read
      then show ?thesis
        using st(5)[where d = d and B = B and op = op and b = b] True A[of blk]
        by (cases "m blk") (auto simp: abs_step_def)
    qed
  qed
  then show "abstracts (snd (access L B Z op blk b s)) (abs_step B op blk b m)"
    by (simp add: abstracts_def)
  let ?st = "stash (readPath L (position_map s ! blk) (remap blk s))"
  have "map_of ?st blk = m blk"
  proof (cases "m blk")
    case None
    then have "\<forall>d. map_of ?st blk \<noteq> Some d" using st(3) A[of blk] by simp
    then show ?thesis using None by (cases "map_of ?st blk") simp_all
  next
    case (Some v)
    then show ?thesis using st(3)[where d = v] A[of blk v] by simp
  qed
  then show "fst (access L B Z op blk b s)
      = Inr (case op of Read \<Rightarrow> (case m blk of Some v \<Rightarrow> v | None \<Rightarrow> zero_block B)
                      | Write \<Rightarrow> b)"
    using st(2)[where B = B and op = op and b = b] by (cases op) simp_all
qed

lemma exec_ops_abs:
  assumes L: "L \<le> 62" and inv: "oram_inv L Z s" and a: "abstracts s m"
  shows "abstracts (exec_ops L B Z ops s) (abs_exec (block_count_N L Z) B ops m)"
  using inv a
proof (induction ops arbitrary: s m)
  case Nil
  then show ?case by simp
next
  case (Cons x ops)
  obtain op blk b where x: "x = (op, blk, b)" by (cases x) auto
  have i': "oram_inv L Z (snd (access L B Z op blk b s))"
    by (rule access_inv[OF L Cons.prems(1)])
  show ?case
  proof (cases "blk < block_count_N L Z")
    case True
    from access_abs(1)[OF L Cons.prems(1) True Cons.prems(2)]
    have "abstracts (snd (access L B Z op blk b s)) (abs_step B op blk b m)" .
    from Cons.IH[OF i' this] show ?thesis using True by (simp add: x)
  next
    case False
    then have same: "snd (access L B Z op blk b s) = s" by (simp add: access_failure)
    from Cons.IH[OF Cons.prems] show ?thesis using False by (simp add: x same)
  qed
qed

lemma read_result:
  assumes L: "L \<le> 62" and g: "mt_in_range L g" and i: "i < block_count_N L Z"
  shows "fst (read L B Z i (exec_ops L B Z ops (PathORAM_ctor L B Z g)))
     = Inr (case abs_exec (block_count_N L Z) B ops Map.empty i of
              Some v \<Rightarrow> v | None \<Rightarrow> zero_block B)"
proof -
  let ?s = "exec_ops L B Z ops (PathORAM_ctor L B Z g)"
  have inv: "oram_inv L Z ?s"
    by (rule exec_ops_inv[OF L oram_inv_ctor[OF g]])
  have a: "abstracts ?s (abs_exec (block_count_N L Z) B ops Map.empty)"
    by (rule exec_ops_abs[OF L oram_inv_ctor[OF g] abstracts_ctor])
  from access_abs(2)[OF L inv i a, where B = B and op = Read] show ?thesis
    by (simp add: read_def)
qed

subsection \<open>The logical memory after writes and reads\<close>

lemma abs_exec_writes:
  assumes "\<forall>(j, v)\<in>set W. j < N"
  shows "abs_exec N B (map (\<lambda>(j, v). (Write, j, v)) W) m i
     = (case map_of (rev W) i of Some v \<Rightarrow> Some v | None \<Rightarrow> m i)"
  using assms
proof (induction W arbitrary: m)
  case Nil
  then show ?case by simp
next
  case (Cons x W)
  obtain j v where x: "x = (j, v)" by (cases x) auto
  have j: "j < N" using Cons.prems x by simp
  have r: "\<forall>(j, v)\<in>set W. j < N" using Cons.prems by simp
  have "abs_exec N B (map (\<lambda>(j, v). (Write, j, v)) (x # W)) m i
      = abs_exec N B (map (\<lambda>(j, v). (Write, j, v)) W) (m(j \<mapsto> v)) i"
    using j by (simp add: x abs_step_def)
  also have "\<dots> = (case map_of (rev W) i of Some v' \<Rightarrow> Some v' | None \<Rightarrow> (m(j \<mapsto> v)) i)"
    by (rule Cons.IH[OF r])
  also have "\<dots> = (case map_of (rev (x # W)) i of Some v' \<Rightarrow> Some v' | None \<Rightarrow> m i)"
    by (simp add: x map_add_def split: option.splits)
  finally show ?case .
qed

lemma abs_exec_reads:
  assumes "m i = Some v"
  shows "abs_exec N B (map (\<lambda>j. (Read, j, b)) R) m i = Some v"
  using assms
proof (induction R arbitrary: m)
  case Nil
  then show ?case by simp
next
  case (Cons j R)
  have "(if j < N then abs_step B Read j b m else m) i = Some v"
    using Cons.prems by (auto simp: abs_step_def)
  from Cons.IH[where m = "if j < N then abs_step B Read j b m else m", OF this]
  show ?case by simp
qed

lemma abs_exec_unwritten:
  assumes "\<forall>(op, j, b)\<in>set ops. op = Write \<longrightarrow> j \<noteq> i"
    and "m i = None \<or> m i = Some (zero_block B)"
  shows "abs_exec N B ops m i = None \<or> abs_exec N B ops m i = Some (zero_block B)"
  using assms
proof (induction ops arbitrary: m)
  case Nil
  then show ?case by simp
next
  case (Cons x ops)
  obtain op j b where x: "x = (op, j, b)" by (cases x) auto
  have r: "\<forall>(op, j, b)\<in>set ops. op = Write \<longrightarrow> j \<noteq> i" using Cons.prems(1) by simp
  have w: "op = Write \<Longrightarrow> j \<noteq> i" using Cons.prems(1) x by simp
  let ?m = "if j < N then abs_step B op j b m else m"
  have "?m i = None \<or> ?m i = Some (zero_block B)"
    using Cons.prems(2) w by (cases op) (auto simp: abs_step_def)
  from Cons.IH[where m = ?m, OF r this] show ?case by (simp add: x)
qed

section \<open>One write on the small engine\<close>

lemma upt_3: "[0..<3] = [0, 1, 2]"
  by (simp add: upt_rec)

lemma ctor_demo: "PathORAM_ctor 1 1 1 (\<lambda>i. i mod 2) = demo_ctor"
proof (rule PathORAM.equality)
  show "buckets (PathORAM_ctor 1 1 1 (\<lambda>i. i mod 2)) = buckets demo_ctor"
    unfolding PathORAM_ctor_fields by (simp add: demo_ctor_def bucket_count_def numeral_3_eq_3)
  show "position_map (PathORAM_ctor 1 1 1 (\<lambda>i. i mod 2)) = position_map demo_ctor"
    unfolding PathORAM_ctor_fields block_count_N_1_1 upt_3 by (simp add: demo_ctor_def)
  show "stash (PathORAM_ctor 1 1 1 (\<lambda>i. i mod 2)) = stash demo_ctor"
    unfolding PathORAM_ctor_fields by (simp add: demo_ctor_def)
  show "mt (PathORAM_ctor 1 1 1 (\<lambda>i. i mod 2)) = mt demo_ctor"
    unfolding PathORAM_ctor_fields block_count_N_1_1 by (simp add: demo_ctor_def)
  show "trace (PathORAM_ctor 1 1 1 (\<lambda>i. i mod 2)) = trace demo_ctor"
    unfolding PathORAM_ctor_fields by (simp add: demo_ctor_def)
  show "PathORAM.more (PathORAM_ctor 1 1 1 (\<lambda>i. i mod 2)) = PathORAM.more demo_ctor"
    by simp
qed

lemma node_1: "getNodeOnPath (Suc 0) 0 0 = 0" "getNodeOnPath (Suc 0) 0 (Suc 0) = Suc 0"
  "getNodeOnPath (Suc 0) (Suc 0) 0 = 0" "getNodeOnPath (Suc 0) (Suc 0) (Suc 0) = 2"
  using getNodeOnPath_closed[of 1 0 0] getNodeOnPath_closed[of 1 0 1]
    getNodeOnPath_closed[of 1 1 0] getNodeOnPath_closed[of 1 1 1]
  by simp_all

lemma upt_2: "[0..<Suc 1] = [0, 1]"
  by (simp add: upt_rec)

lemma readBucket_default: "readBucket [default_IDBlock B] st = st"
  by (simp add: readBucket_def default_IDBlock_def)

lemma demo_step1: "readPath 1 0 (remap 0 demo_ctor) = demo_read"
  unfolding readPath_def upt_2
  by (simp add: remap_def randomPath_def demo_ctor_def readPath_level_def node_1
      readBucket_default demo_read_def)

lemma demo_step2: "stash_op 1 Write 0 [7] demo_read = ([7], demo_op)"
  by (simp add: stash_op_def stash_assign_def stash_index_def demo_read_def demo_op_def)

lemma demo_step3: "writePath_level 1 1 1 0 1 demo_op = demo_leaf"
  by (simp add: writePath_level_def getIntersectingBlocks_def demo_op_def demo_leaf_def node_1
      default_IDBlock_def invalidate_slot_def Let_def)

lemma demo_step4: "writePath_level 1 1 1 0 0 demo_leaf = demo_written"
  by (simp add: writePath_level_def getIntersectingBlocks_def demo_leaf_def demo_written_def
      node_1 fill_slot_def stash_index_def erase_def Let_def)

lemma rev_upt_2: "rev [0..<Suc 1] = [1, 0]"
  by (simp add: upt_rec)

lemma demo_access: "access 1 1 1 Write 0 [7] demo_ctor = (Inr [7], demo_written)"
proof -
  have lt: "0 < block_count_N 1 1" unfolding block_count_N_1_1 by simp
  have pos: "position_map demo_ctor ! 0 = 0" by (simp add: demo_ctor_def)
  show ?thesis
    unfolding access_success[OF lt] pos demo_step1 demo_step2 writePath_def rev_upt_2
    by (simp only: fold_simps comp_apply id_apply fst_conv snd_conv demo_step3 demo_step4)
qed

lemma demo_exec:
  "exec_ops 1 1 1 [(Write, 0, [7])] (PathORAM_ctor 1 1 1 (\<lambda>i. i mod 2)) = demo_written"
  unfolding ctor_demo exec_ops_def
  by (simp only: fold_simps comp_apply id_apply prod.case demo_access snd_conv)

lemma demo_holds: "holds_at (buckets demo_written) 0 0 0"
  by (simp add: holds_at_def demo_written_def invalid_block_def)

section \<open>Invariants and functional correctness\<close>

lemma level_interval_unique:
  fixes n :: nat
  assumes "2 ^ a - 1 \<le> n" "n < 2 ^ (a + 1) - 1" "2 ^ b - 1 \<le> n" "n < 2 ^ (b + 1) - 1"
  shows "a = b"
proof (rule ccontr)
  assume ne: "a \<noteq> b"
  have aux: False
    if "x < y" "n < 2 ^ (x + 1) - 1" "2 ^ y - 1 \<le> n" for x y
  proof -
    have "(2::nat) ^ (x + 1) \<le> 2 ^ y" using that(1) by (intro power_increasing) simp_all
    then show False using that(2,3) by linarith
  qed
  show False
  proof (cases "a < b")
    case True
    then show False by (rule aux[OF _ assms(2) assms(3)])
  next
    case False
    then have "b < a" using ne by simp
    then show False by (rule aux[OF _ assms(4) assms(1)])
  qed
qed

lemma reachable_inv:
  assumes "L \<le> 62" "mt_in_range L g"
  shows "oram_inv L Z (exec_ops L B Z ops (PathORAM_ctor L B Z g))"
  by (rule exec_ops_inv[OF assms(1) oram_inv_ctor[OF assms(2)]])

lemma oram_inv_tree:
  assumes "oram_inv L Z s" "holds_at (buckets s) n z i"
  shows "i < block_count_N L Z"
    and "map_of (stash s) i = None"
    and "\<exists>h\<le>L. n = getNodeOnPath L (position_map s ! i) h"
    and "\<And>n' z'. holds_at (buckets s) n' z' i \<Longrightarrow> n' = n \<and> z' = z"
    and "position_map s ! i < leaf_count L"
proof -
  from assms(1) have "tree_ok L (block_count_N L Z) {} (buckets s) (position_map s) (stash s)"
    by (simp add: oram_inv_def mid_inv_def)
  with assms(2) show a: "i < block_count_N L Z" and "map_of (stash s) i = None"
    and "\<exists>h\<le>L. n = getNodeOnPath L (position_map s ! i) h"
    and "\<And>n' z'. holds_at (buckets s) n' z' i \<Longrightarrow> n' = n \<and> z' = z"
    unfolding tree_ok_def by blast+
  from assms(1) a show "position_map s ! i < leaf_count L"
    by (simp add: oram_inv_def)
qed

text \<open>
  Claim C3.  In every state that the engine reaches from its constructor by a sequence
  of accesses, a block \<open>i\<close> held by a slot of bucket \<open>n\<close>, where \<open>n\<close> sits at level \<open>h\<close> of
  the tree (the heap indices of level \<open>h\<close> are \<open>2 ^ h - 1, \<dots>, 2 ^ (h + 1) - 2\<close>), is on
  the path of its leaf: \<open>n = getNodeOnPath L (position_map[i]) h\<close>.
\<close>

theorem block_path_invariant:
  assumes "L \<le> 62" and "mt_in_range L g"
    and "s = exec_ops L B Z ops (PathORAM_ctor L B Z g)"
    and "holds_at (buckets s) n z i"
    and "h \<le> L" and "2 ^ h - 1 \<le> n" and "n < 2 ^ (h + 1) - 1"
  shows "n = getNodeOnPath L (position_map s ! i) h"
proof -
  have inv: "oram_inv L Z s" unfolding assms(3) by (rule reachable_inv[OF assms(1,2)])
  from oram_inv_tree(3)[OF inv assms(4)]
  obtain h' where h': "h' \<le> L" "n = getNodeOnPath L (position_map s ! i) h'" by blast
  have p: "position_map s ! i < 2 ^ L"
    using oram_inv_tree(5)[OF inv assms(4)] by (simp add: leaf_count_def)
  have "2 ^ h' - 1 \<le> n" "n < 2 ^ (h' + 1) - 1"
    unfolding h'(2)
    by (rule getNodeOnPath_lower[OF assms(1) p h'(1)], rule getNodeOnPath_upper[OF assms(1) p h'(1)])
  then have "h' = h" using assms(6,7) by (rule level_interval_unique)
  then show ?thesis using h'(2) by simp
qed

text \<open>
  Claim C4.  In every state that the engine reaches from its constructor by a sequence
  of accesses, no identifier occurs twice among the keys of the stash, an identifier
  held by a slot of the tree is not a key of the stash, and it is held by no other
  slot of any bucket.
\<close>

theorem no_duplication:
  assumes "L \<le> 62" and "mt_in_range L g"
    and "s = exec_ops L B Z ops (PathORAM_ctor L B Z g)"
  shows "distinct (map fst (stash s))
     \<and> (\<forall>n z i. holds_at (buckets s) n z i \<longrightarrow>
           i \<notin> fst ` set (stash s)
           \<and> (\<forall>n' z'. holds_at (buckets s) n' z' i \<longrightarrow> n' = n \<and> z' = z))"
proof -
  have inv: "oram_inv L Z s" unfolding assms(3) by (rule reachable_inv[OF assms(1,2)])
  then have "distinct (map fst (stash s))"
    by (simp add: oram_inv_def mid_inv_def stash_ok_def)
  moreover have "i \<notin> fst ` set (stash s)" if "holds_at (buckets s) n z i" for n z i
    using oram_inv_tree(2)[OF inv that] by (simp add: map_of_eq_None_iff)
  moreover have "n' = n \<and> z' = z"
    if "holds_at (buckets s) n z i" "holds_at (buckets s) n' z' i" for n z i n' z'
    using oram_inv_tree(4)[OF inv that] .
  ultimately show ?thesis by blast
qed

text \<open>
  Claim C1.  Let \<open>W\<close> be a sequence of writes with identifiers below \<open>block_count_N\<close>,
  possibly repeated, executed on an engine in any state reached from its constructor
  (by the accesses \<open>pre\<close>), and followed by the reads of any identifiers \<open>R\<close>.  For every
  identifier \<open>i\<close> written in \<open>W\<close>, \<^verbatim>\<open>read(i)\<close> then returns the payload of the last write
  to \<open>i\<close> in \<open>W\<close>.
\<close>

theorem read_after_writes:
  assumes "L \<le> 62" and "mt_in_range L g"
    and "\<forall>(j, v)\<in>set W. j < block_count_N L Z"
    and "map_of (rev W) i = Some v"
  shows "fst (read L B Z i
            (exec_ops L B Z
               (pre @ map (\<lambda>(j, v). (Write, j, v)) W @ map (\<lambda>j. (Read, j, b)) R)
               (PathORAM_ctor L B Z g)))
         = Inr v"
proof -
  let ?N = "block_count_N L Z"
  from assms(4) have "(i, v) \<in> set W" using map_of_SomeD by fastforce
  with assms(3) have i: "i < ?N" by blast
  have "abs_exec ?N B (map (\<lambda>(j, v). (Write, j, v)) W) (abs_exec ?N B pre Map.empty) i = Some v"
    using abs_exec_writes[OF assms(3), of B "abs_exec ?N B pre Map.empty" i] assms(4) by simp
  then have "abs_exec ?N B
      (pre @ map (\<lambda>(j, v). (Write, j, v)) W @ map (\<lambda>j. (Read, j, b)) R) Map.empty i = Some v"
    by (simp add: abs_exec_reads)
  then show ?thesis
    using read_result[OF assms(1,2) i, of B
        "pre @ map (\<lambda>(j, v). (Write, j, v)) W @ map (\<lambda>j. (Read, j, b)) R"]
    by simp
qed

text \<open>
  Claim C5.  Let \<open>i < block_count_N\<close> be an identifier that no access so far has written.
  Then \<^verbatim>\<open>read(i)\<close> returns the zero-filled block and no error; after the statement
  \<^verbatim>\<open>b = stash[blk]\<close> of that access the stash maps \<open>i\<close> to the zero block; and when the
  access is complete the engine holds the zero block for \<open>i\<close>, in the stash or in the
  tree, as it holds a written block.
\<close>

theorem read_unwritten:
  assumes "L \<le> 62" and "mt_in_range L g" and "i < block_count_N L Z"
    and "\<forall>(op, j, b)\<in>set ops. op = Write \<longrightarrow> j \<noteq> i"
    and "s = exec_ops L B Z ops (PathORAM_ctor L B Z g)"
  shows "fst (read L B Z i s) = Inr (zero_block B)
     \<and> map_of (stash (snd (stash_op B Read i (zero_block B)
                 (readPath L (position_map s ! i) (remap i s))))) i = Some (zero_block B)
     \<and> stored (snd (read L B Z i s)) i (zero_block B)"
proof -
  let ?N = "block_count_N L Z"
  define m where "m = abs_exec ?N B ops Map.empty"
  have inv: "oram_inv L Z s" unfolding assms(5) by (rule reachable_inv[OF assms(1,2)])
  have a: "abstracts s m"
    unfolding assms(5) m_def by (rule exec_ops_abs[OF assms(1) oram_inv_ctor[OF assms(2)] abstracts_ctor])
  have mi: "m i = None \<or> m i = Some (zero_block B)"
    unfolding m_def by (rule abs_exec_unwritten[OF assms(4)]) simp
  have res: "fst (read L B Z i s)
      = Inr (case m i of Some v \<Rightarrow> v | None \<Rightarrow> zero_block B)"
    using access_abs(2)[OF assms(1) inv assms(3) a, where B = B and op = Read]
    by (simp add: read_def)
  have r: "fst (read L B Z i s) = Inr (zero_block B)"
  proof (cases "m i")
    case None
    then show ?thesis by (simp add: res)
  next
    case (Some v)
    then have "v = zero_block B" using mi by simp
    then show ?thesis using Some by (simp add: res)
  qed
  let ?st = "stash (readPath L (position_map s ! i) (remap i s))"
  have sm: "stored s i d \<longleftrightarrow> m i = Some d" for d using a by (simp add: abstracts_def)
  have ms: "map_of ?st i = Some d \<longleftrightarrow> m i = Some d" for d
    unfolding access_step(3)[OF assms(1) inv assms(3)] by (rule sm)
  have st: "map_of ?st i = None \<or> map_of ?st i = Some (zero_block B)"
  proof (cases "map_of ?st i")
    case None
    then show ?thesis by simp
  next
    case (Some d)
    then have "m i = Some d" using ms[of d] by simp
    then have "d = zero_block B" using mi by simp
    then show ?thesis using Some by simp
  qed
  have "map_of (stash (snd (stash_op B Read i (zero_block B)
                 (readPath L (position_map s ! i) (remap i s))))) i
      = (if map_of ?st i = None then (map_of ?st)(i \<mapsto> zero_block B) else map_of ?st) i"
    by (simp add: stash_op_stash(1))
  also have "\<dots> = Some (zero_block B)"
    using st by (cases "map_of ?st i = None") simp_all
  finally have mid: "map_of (stash (snd (stash_op B Read i (zero_block B)
                 (readPath L (position_map s ! i) (remap i s))))) i = Some (zero_block B)" .
  have "abstracts (snd (read L B Z i s)) (abs_step B Read i (zero_block B) m)"
    unfolding read_def by (rule access_abs(1)[OF assms(1) inv assms(3) a])
  moreover have "abs_step B Read i (zero_block B) m i = Some (zero_block B)"
    using mi by (cases "m i") (simp_all add: abs_step_def)
  ultimately have "stored (snd (read L B Z i s)) i (zero_block B)"
    by (simp add: abstracts_def)
  with r mid show ?thesis by blast
qed

section \<open>Instances on the small engine\<close>

theorem block_path_invariant_witness:
  "holds_at (buckets (exec_ops 1 1 1 [(Write, 0, [7])] (PathORAM_ctor 1 1 1 (\<lambda>i. i mod 2)))) 0 0 0
   \<and> 0 = getNodeOnPath 1
         (position_map (exec_ops 1 1 1 [(Write, 0, [7])] (PathORAM_ctor 1 1 1 (\<lambda>i. i mod 2))) ! 0) 0"
proof -
  let ?s = "exec_ops 1 1 1 [(Write, 0, [7])] (PathORAM_ctor 1 1 1 (\<lambda>i. i mod 2))"
  have L: "(1::nat) \<le> 62" by simp
  have h: "holds_at (buckets ?s) 0 0 0" unfolding demo_exec by (rule demo_holds)
  have lv: "(0::nat) \<le> 1" "2 ^ 0 - 1 \<le> (0::nat)" "(0::nat) < 2 ^ (0 + 1) - 1" by simp_all
  from block_path_invariant[OF L mt_in_range_mod2 refl h lv] h
  show ?thesis by blast
qed

theorem no_duplication_witness:
  "distinct (map fst (stash (exec_ops 1 1 1 [(Write, 0, [7])] (PathORAM_ctor 1 1 1 (\<lambda>i. i mod 2)))))
   \<and> holds_at (buckets (exec_ops 1 1 1 [(Write, 0, [7])] (PathORAM_ctor 1 1 1 (\<lambda>i. i mod 2)))) 0 0 0
   \<and> 0 \<notin> fst ` set (stash (exec_ops 1 1 1 [(Write, 0, [7])] (PathORAM_ctor 1 1 1 (\<lambda>i. i mod 2))))"
proof -
  let ?s = "exec_ops 1 1 1 [(Write, 0, [7])] (PathORAM_ctor 1 1 1 (\<lambda>i. i mod 2))"
  have L: "(1::nat) \<le> 62" by simp
  have h: "holds_at (buckets ?s) 0 0 0" unfolding demo_exec by (rule demo_holds)
  from no_duplication[OF L mt_in_range_mod2 refl, of 1 1 "[(Write, 0, [7])]"] h
  show ?thesis by blast
qed

theorem read_after_writes_witness:
  "fst (read 1 1 1 0
          (exec_ops 1 1 1
             ([(Read, 1, [])] @ map (\<lambda>(j, v). (Write, j, v)) [(0, [7]), (2, [9]), (0, [8])]
                @ map (\<lambda>j. (Read, j, [])) [2, 0])
             (PathORAM_ctor 1 1 1 (\<lambda>i. i mod 2))))
   = Inr [8]"
proof -
  have L: "(1::nat) \<le> 62" by simp
  have ids: "\<forall>(j, v)\<in>set [(0, [7]), (2, [9]), (0, [8::8 word])]. j < block_count_N 1 1"
    unfolding block_count_N_1_1 by simp
  have last: "map_of (rev [(0::nat, [7]), (2, [9]), (0, [8::8 word])]) 0 = Some [8]"
    by simp
  show ?thesis
    by (rule read_after_writes[OF L mt_in_range_mod2 ids last])
qed

theorem read_unwritten_witness:
  "fst (read 1 1 1 1 (exec_ops 1 1 1 [(Write, 0, [7]), (Read, 1, [])]
          (PathORAM_ctor 1 1 1 (\<lambda>i. i mod 2)))) = Inr (zero_block 1)
   \<and> map_of (stash (snd (stash_op 1 Read 1 (zero_block 1)
         (readPath 1
            (position_map (exec_ops 1 1 1 [(Write, 0, [7]), (Read, 1, [])]
               (PathORAM_ctor 1 1 1 (\<lambda>i. i mod 2))) ! 1)
            (remap 1 (exec_ops 1 1 1 [(Write, 0, [7]), (Read, 1, [])]
               (PathORAM_ctor 1 1 1 (\<lambda>i. i mod 2)))))))) 1 = Some (zero_block 1)
   \<and> stored (snd (read 1 1 1 1 (exec_ops 1 1 1 [(Write, 0, [7]), (Read, 1, [])]
          (PathORAM_ctor 1 1 1 (\<lambda>i. i mod 2))))) 1 (zero_block 1)"
proof -
  have L: "(1::nat) \<le> 62" by simp
  have i: "1 < block_count_N 1 1" unfolding block_count_N_1_1 by simp
  have nw: "\<forall>(op, j, b)\<in>set [(Write, 0::nat, [7::8 word]), (Read, 1, [])]. op = Write \<longrightarrow> j \<noteq> 1"
    by simp
  show ?thesis
    by (rule read_unwritten[OF L mt_in_range_mod2 i nw refl])
qed

section \<open>Reproducibility of the access pattern\<close>

lemma touched_path:
  "touched (Remap blk # map (\<lambda>h. BucketRead (f h)) hs @ map (\<lambda>h. BucketWrite (f h)) hs')
     = map f hs @ map f hs'"
proof -
  have a: "touched (map (\<lambda>h. BucketWrite (f h)) ys) = map f ys" for ys
    by (induction ys) simp_all
  have "touched (map (\<lambda>h. BucketRead (f h)) xs @ es) = map f xs @ touched es" for xs es
    by (induction xs) simp_all
  then show ?thesis by (simp add: a)
qed

lemma access_same_path:
  assumes "position_map s = position_map s'" "mt s = mt s'" "trace s = trace s'"
  shows "position_map (snd (access L B Z op blk b s)) = position_map (snd (access L B Z op' blk b' s'))
     \<and> mt (snd (access L B Z op blk b s)) = mt (snd (access L B Z op' blk b' s'))
     \<and> trace (snd (access L B Z op blk b s)) = trace (snd (access L B Z op' blk b' s'))"
proof (cases "blk < block_count_N L Z")
  case True
  show ?thesis
    unfolding access_position_map[OF True] access_mt[OF True] access_trace[OF True]
    using assms by simp
next
  case False
  then show ?thesis using assms by (simp add: access_failure)
qed

lemma exec_ops_same_path:
  assumes "map (fst \<circ> snd) ops = map (fst \<circ> snd) ops'"
    and "position_map s = position_map s'" "mt s = mt s'" "trace s = trace s'"
  shows "position_map (exec_ops L B Z ops s) = position_map (exec_ops L B Z ops' s')
     \<and> mt (exec_ops L B Z ops s) = mt (exec_ops L B Z ops' s')
     \<and> trace (exec_ops L B Z ops s) = trace (exec_ops L B Z ops' s')"
  using assms
proof (induction ops arbitrary: ops' s s')
  case Nil
  then show ?case by simp
next
  case (Cons x ops)
  from Cons.prems(1) obtain y ops1 where o: "ops' = y # ops1" by (cases ops') auto
  obtain op blk b where x: "x = (op, blk, b)" by (cases x) auto
  obtain op' blk' b' where y: "y = (op', blk', b')" by (cases y) auto
  have e: "blk' = blk" "map (fst \<circ> snd) ops = map (fst \<circ> snd) ops1"
    using Cons.prems(1) by (simp_all add: o x y comp_def)
  from access_same_path[OF Cons.prems(2,3,4), of L B Z op blk b op' b']
  have st: "position_map (snd (access L B Z op blk b s))
        = position_map (snd (access L B Z op' blk b' s'))"
    "mt (snd (access L B Z op blk b s)) = mt (snd (access L B Z op' blk b' s'))"
    "trace (snd (access L B Z op blk b s)) = trace (snd (access L B Z op' blk b' s'))"
    by blast+
  show ?case
    unfolding o x y e(1) exec_ops_Cons
    by (rule Cons.IH[OF e(2) st])
qed

text \<open>
  Claim C10, as the code has it.  Two engines whose generators are in the same state
  after seeding, receiving accesses with the same identifiers in the same order
  (operations and payloads may differ), touch the same buckets in the same order.
\<close>

theorem same_generator_same_trace:
  assumes "map (fst \<circ> snd) ops = map (fst \<circ> snd) ops'"
  shows "touched (trace (exec_ops L B Z ops (PathORAM_ctor L B Z g)))
       = touched (trace (exec_ops L B Z ops' (PathORAM_ctor L B Z g)))"
  using exec_ops_same_path[OF assms refl refl refl, of L B Z "PathORAM_ctor L B Z g"]
  by simp

theorem same_generator_same_trace_witness:
  "touched (trace (exec_ops 1 1 1 [(Write, 0, [7]), (Read, 2, [])] (PathORAM_ctor 1 1 1 (\<lambda>i. i mod 2))))
     = touched (trace (exec_ops 1 1 1 [(Read, 0, []), (Write, 2, [9])] (PathORAM_ctor 1 1 1 (\<lambda>i. i mod 2))))"
proof -
  have "map (fst \<circ> snd) [(Write, 0::nat, [7::8 word]), (Read, 2, [])]
      = map (fst \<circ> snd) [(Read, 0, []), (Write, 2, [9])]"
    by simp
  then show ?thesis by (rule same_generator_same_trace)
qed

lemma position_map_alternating: "position_map (PathORAM_ctor 1 1 1 alternating_mt) ! 1 = 1"
  unfolding PathORAM_ctor_fields block_count_N_1_1 upt_3 by (simp add: alternating_mt_def)

lemma position_map_constant: "position_map (PathORAM_ctor 1 1 1 constant_mt) ! 1 = 0"
  unfolding PathORAM_ctor_fields block_count_N_1_1 upt_3 by (simp add: constant_mt_def)

text \<open>
  The constructor has no seed parameter: the state of its generator comes from
  \<^verbatim>\<open>std::random_device\<close> alone.  Two engines built by the same call
  \<^verbatim>\<open>PathORAM<1, 1, 1>()\<close> whose devices seed the generator differently touch different
  buckets for the same access \<^verbatim>\<open>read(1)\<close>.
\<close>

theorem construction_not_reproducible:
  "touched (trace (exec_ops 1 1 1 [(Read, 1, [])] (PathORAM_ctor 1 1 1 alternating_mt)))
     \<noteq> touched (trace (exec_ops 1 1 1 [(Read, 1, [])] (PathORAM_ctor 1 1 1 constant_mt)))"
proof -
  have lt: "1 < block_count_N 1 1" unfolding block_count_N_1_1 by simp
  have a: "touched (trace (exec_ops 1 1 1 [(Read, 1, [])] (PathORAM_ctor 1 1 1 alternating_mt)))
      = map (getNodeOnPath 1 1) [0..<Suc 1] @ map (getNodeOnPath 1 1) (rev [0..<Suc 1])"
    unfolding exec_ops_Cons exec_ops_Nil access_trace[OF lt] position_map_alternating
    unfolding PathORAM_ctor_fields append_Nil
    by (rule touched_path)
  have b: "touched (trace (exec_ops 1 1 1 [(Read, 1, [])] (PathORAM_ctor 1 1 1 constant_mt)))
      = map (getNodeOnPath 1 0) [0..<Suc 1] @ map (getNodeOnPath 1 0) (rev [0..<Suc 1])"
    unfolding exec_ops_Cons exec_ops_Nil access_trace[OF lt] position_map_constant
    unfolding PathORAM_ctor_fields append_Nil
    by (rule touched_path)
  show ?thesis
    unfolding a b upt_2 by (simp add: node_1)
qed

section \<open>The distribution of the access pattern\<close>

subsection \<open>The leaves read by a sequence of accesses\<close>

lemma leaf_run_length:
  "length ds = length ids \<Longrightarrow>
   length (fst (leaf_run ids pm ds)) = length pm \<and> length (snd (leaf_run ids pm ds)) = length ids"
proof (induction ids pm ds rule: leaf_run.induct)
  case (1 i ids pm d ds)
  then show ?case by simp
qed simp_all

lemma leaf_run_back_length:
  "length ls = length ids \<Longrightarrow>
   length (fst (leaf_run_back ids pm ls)) = length pm
   \<and> length (snd (leaf_run_back ids pm ls)) = length ids"
proof (induction ids pm ls rule: leaf_run_back.induct)
  case (1 i ids pm l ls)
  then show ?case by simp
qed simp_all

lemma leaf_run_set:
  assumes "length ds = length ids" "\<forall>i\<in>set ids. i < length pm" "set pm \<subseteq> S" "set ds \<subseteq> S"
  shows "set (fst (leaf_run ids pm ds)) \<subseteq> S \<and> set (snd (leaf_run ids pm ds)) \<subseteq> S"
  using assms
proof (induction ids pm ds rule: leaf_run.induct)
  case (1 i ids pm d ds)
  have "set (pm[i := d]) \<subseteq> S"
    using set_update_subset_insert[of pm i d] "1.prems"(3,4) by auto
  then have "set (fst (leaf_run ids (pm[i := d]) ds)) \<subseteq> S
      \<and> set (snd (leaf_run ids (pm[i := d]) ds)) \<subseteq> S"
    using "1.prems" by (intro "1.IH") simp_all
  moreover have "pm ! i \<in> S" using "1.prems"(2,3) by (auto simp: subset_iff)
  ultimately show ?case by simp
qed simp_all

lemma leaf_run_back_set:
  assumes "length ls = length ids" "\<forall>i\<in>set ids. i < length pm" "set pm \<subseteq> S" "set ls \<subseteq> S"
  shows "set (fst (leaf_run_back ids pm ls)) \<subseteq> S \<and> set (snd (leaf_run_back ids pm ls)) \<subseteq> S"
  using assms
proof (induction ids pm ls rule: leaf_run_back.induct)
  case (1 i ids pm l ls)
  let ?r = "leaf_run_back ids pm ls"
  have IH: "set (fst ?r) \<subseteq> S \<and> set (snd ?r) \<subseteq> S"
    using "1.prems" by (intro "1.IH") simp_all
  have len: "length (fst ?r) = length pm"
    using leaf_run_back_length[of ls ids pm] "1.prems"(1) by simp
  have "set ((fst ?r)[i := l]) \<subseteq> S"
    using set_update_subset_insert[of "fst ?r" i l] IH "1.prems"(4) by auto
  moreover have "fst ?r ! i \<in> S" using "1.prems"(2) IH len by (auto simp: subset_iff)
  ultimately show ?case using IH by simp
qed simp_all

lemma leaf_run_back_leaf_run:
  assumes "length ds = length ids" "\<forall>i\<in>set ids. i < length pm"
  shows "leaf_run_back ids (fst (leaf_run ids pm ds)) (snd (leaf_run ids pm ds)) = (pm, ds)"
  using assms
proof (induction ids pm ds rule: leaf_run.induct)
  case (1 i ids pm d ds)
  let ?r = "leaf_run ids (pm[i := d]) ds"
  have IH: "leaf_run_back ids (fst ?r) (snd ?r) = (pm[i := d], ds)"
    using "1.prems" by (intro "1.IH") simp_all
  have i: "i < length pm" using "1.prems"(2) by simp
  show ?case using i by (simp add: IH)
qed simp_all

lemma leaf_run_leaf_run_back:
  assumes "length ls = length ids" "\<forall>i\<in>set ids. i < length pm"
  shows "leaf_run ids (fst (leaf_run_back ids pm ls)) (snd (leaf_run_back ids pm ls)) = (pm, ls)"
  using assms
proof (induction ids pm ls rule: leaf_run_back.induct)
  case (1 i ids pm l ls)
  let ?r = "leaf_run_back ids pm ls"
  have IH: "leaf_run ids (fst ?r) (snd ?r) = (pm, ls)"
    using "1.prems" by (intro "1.IH") simp_all
  have len: "length (fst ?r) = length pm"
    using leaf_run_back_length[of ls ids pm] "1.prems"(1) by simp
  have i: "i < length (fst ?r)" using "1.prems"(2) len by simp
  show ?case using i by (simp add: IH)
qed simp_all

lemma touched_append: "touched (es @ es') = touched es @ touched es'"
  by (induction es rule: touched.induct) simp_all

lemma touched_access:
  assumes "blk < block_count_N L Z"
  shows "touched (trace (snd (access L B Z op blk b s)))
     = touched (trace s) @ path_of L (position_map s ! blk)"
  unfolding access_trace[OF assms] touched_append path_of_def
  by (simp only: touched_path)

lemma exec_ops_touched:
  assumes "\<forall>(op, blk, b)\<in>set ops. blk < block_count_N L Z"
  shows "touched (trace (exec_ops L B Z ops s))
     = touched (trace s)
       @ concat (map (path_of L)
           (snd (leaf_run (map (fst \<circ> snd) ops) (position_map s)
                   (map (mt s) [0..<length ops]))))"
  using assms
proof (induction ops arbitrary: s)
  case Nil
  then show ?case by simp
next
  case (Cons x ops)
  obtain op blk b where x: "x = (op, blk, b)" by (cases x) auto
  have blk: "blk < block_count_N L Z" using Cons.prems x by simp
  have r: "\<forall>(op, blk, b)\<in>set ops. blk < block_count_N L Z" using Cons.prems by simp
  let ?s = "snd (access L B Z op blk b s)"
  have draws: "map (mt s) [0..<length (x # ops)]
      = mt s 0 # map (\<lambda>i. mt s (Suc i)) [0..<length ops]"
    by (simp add: map_upt_Suc del: upt_Suc)
  have "touched (trace (exec_ops L B Z (x # ops) s))
      = touched (trace ?s)
        @ concat (map (path_of L)
            (snd (leaf_run (map (fst \<circ> snd) ops) (position_map ?s)
                    (map (mt ?s) [0..<length ops]))))"
    unfolding x exec_ops_Cons by (rule Cons.IH[OF r])
  also have "\<dots> = touched (trace s) @ path_of L (position_map s ! blk)
        @ concat (map (path_of L)
            (snd (leaf_run (map (fst \<circ> snd) ops) ((position_map s)[blk := mt s 0])
                    (map (\<lambda>i. mt s (Suc i)) [0..<length ops]))))"
    unfolding touched_access[OF blk] access_position_map[OF blk] access_mt[OF blk] by simp
  also have "\<dots> = touched (trace s)
       @ concat (map (path_of L)
           (snd (leaf_run (map (fst \<circ> snd) (x # ops)) (position_map s)
                   (map (mt s) [0..<length (x # ops)]))))"
    unfolding draws by (simp add: x)
  finally show ?case .
qed

lemma tape_of_take:
  assumes "N \<le> length xs"
  shows "map (tape_of xs) [0..<N] = take N xs"
  using assms by (intro nth_equalityI) (simp_all add: tape_of_def)

lemma tape_of_drop:
  assumes "length xs = N + n"
  shows "map (\<lambda>k. tape_of xs (k + N)) [0..<n] = drop N xs"
  using assms by (intro nth_equalityI) (simp_all add: tape_of_def add.commute)

lemma observed_eq:
  assumes "\<forall>(op, blk, b)\<in>set ops. blk < block_count_N L Z"
    and "length xs = block_count_N L Z + length ops"
  shows "observed L B Z ops xs
     = concat (map (path_of L)
         (snd (leaf_run (map (fst \<circ> snd) ops)
                 (take (block_count_N L Z) xs) (drop (block_count_N L Z) xs))))"
proof -
  have N: "block_count_N L Z \<le> length xs" using assms(2) by simp
  show ?thesis
    unfolding observed_def exec_ops_touched[OF assms(1)] PathORAM_ctor_fields
      tape_of_take[OF N] tape_of_drop[OF assms(2)]
    by simp
qed

subsection \<open>Counting tapes\<close>

lemma leaf_range_card: "card {leaf_dist_a..leaf_dist_b L} = leaf_count L"
proof -
  have "0 < leaf_count L" by (simp add: leaf_count_def)
  then show ?thesis by (simp add: leaf_dist_a_def leaf_dist_b_eq)
qed

lemma tapes_eq: "tapes L k = {xs. set xs \<subseteq> {leaf_dist_a..leaf_dist_b L} \<and> length xs = k}"
  by (auto simp: tapes_def)

lemma finite_tapes: "finite (tapes L k)"
  unfolding tapes_eq by (rule finite_lists_length_eq) simp

lemma card_tapes: "card (tapes L k) = leaf_count L ^ k"
proof -
  have "card (tapes L k) = card {leaf_dist_a..leaf_dist_b L} ^ k"
    unfolding tapes_eq by (rule card_lists_length_eq) simp
  then show ?thesis unfolding leaf_range_card .
qed

lemma trace_count:
  fixes L B Z :: nat and ops :: "(Op \<times> nat \<times> Block) list" and t :: "nat list"
  defines "N \<equiv> block_count_N L Z"
  defines "S \<equiv> {leaf_dist_a..leaf_dist_b L}"
  assumes ids: "\<forall>(op, blk, b)\<in>set ops. blk < block_count_N L Z"
  shows "card {xs \<in> tapes L (N + length ops). observed L B Z ops xs = t}
     = card {(pm, ls). length pm = N \<and> length ls = length ops \<and> set pm \<subseteq> S \<and> set ls \<subseteq> S
               \<and> concat (map (path_of L) ls) = t}"
proof -
  define ids where "ids = map (fst \<circ> snd) ops"
  define n where "n = length ops"
  define f where "f = (\<lambda>xs. leaf_run ids (take N xs) (drop N xs))"
  define g where "g = (\<lambda>(pm, ls). fst (leaf_run_back ids pm ls) @ snd (leaf_run_back ids pm ls))"
  define A where "A = {xs \<in> tapes L (N + n). observed L B Z ops xs = t}"
  define C where "C = {(pm, ls). length pm = N \<and> length ls = n \<and> set pm \<subseteq> S \<and> set ls \<subseteq> S
               \<and> concat (map (path_of L) ls) = t}"
  have len_ids: "length ids = n" by (simp add: ids_def n_def)
  have ids_lt: "\<forall>i\<in>set ids. i < N"
    using ids by (auto simp: ids_def N_def)
  have obs: "observed L B Z ops xs = concat (map (path_of L) (snd (f xs)))"
    if "length xs = N + n" for xs
    using observed_eq[OF ids, of xs B] that by (simp add: f_def ids_def N_def n_def)
  have A_props: "length xs = N + n" "set xs \<subseteq> S" "observed L B Z ops xs = t" if "xs \<in> A" for xs
    using that by (simp_all add: A_def tapes_def S_def)
  have C_props: "length pm = N" "length ls = n" "set pm \<subseteq> S" "set ls \<subseteq> S"
    "concat (map (path_of L) ls) = t" if "(pm, ls) \<in> C" for pm ls
    using that by (simp_all add: C_def)
  have gf: "g (f xs) = xs" if "xs \<in> A" for xs
  proof -
    note P = A_props[OF that]
    have l1: "length (drop N xs) = length ids" using P(1) len_ids by simp
    have l2: "\<forall>i\<in>set ids. i < length (take N xs)" using ids_lt P(1) by simp
    have "leaf_run_back ids (fst (f xs)) (snd (f xs)) = (take N xs, drop N xs)"
      unfolding f_def by (rule leaf_run_back_leaf_run[OF l1 l2])
    then show ?thesis by (simp add: g_def case_prod_unfold)
  qed
  have fg: "f (g y) = y" and gC: "g y \<in> A" if "y \<in> C" for y
  proof -
    obtain pm ls where y: "y = (pm, ls)" by (cases y) auto
    note P = C_props[OF that[unfolded y]]
    let ?r = "leaf_run_back ids pm ls"
    have l1: "length ls = length ids" using P(2) len_ids by simp
    have l2: "\<forall>i\<in>set ids. i < length pm" using ids_lt P(1) by simp
    have len: "length (fst ?r) = N" "length (snd ?r) = n"
      using leaf_run_back_length[OF l1, of pm] P(1) len_ids by simp_all
    have gy: "g y = fst ?r @ snd ?r" by (simp add: g_def y)
    have td: "take N (g y) = fst ?r" "drop N (g y) = snd ?r"
      using len(1) by (simp_all add: gy)
    have "f (g y) = leaf_run ids (fst ?r) (snd ?r)" by (simp add: f_def td)
    also have "\<dots> = (pm, ls)" by (rule leaf_run_leaf_run_back[OF l1 l2])
    finally show fgy: "f (g y) = y" by (simp add: y)
    have leng: "length (g y) = N + n" using len by (simp add: gy)
    have "set (fst ?r) \<subseteq> S \<and> set (snd ?r) \<subseteq> S"
      by (rule leaf_run_back_set[OF l1 l2 P(3,4)])
    then have setg: "set (g y) \<subseteq> S" by (simp add: gy)
    have "snd (f (g y)) = ls" using fgy y by simp
    then have "observed L B Z ops (g y) = t"
      using obs[OF leng] P(5) by simp
    then show "g y \<in> A" using leng setg by (simp add: A_def tapes_def S_def)
  qed
  have fA: "f xs \<in> C" if "xs \<in> A" for xs
  proof -
    note P = A_props[OF that]
    have l1: "length (drop N xs) = length ids" using P(1) len_ids by simp
    have l2: "\<forall>i\<in>set ids. i < length (take N xs)" using ids_lt P(1) by simp
    have s1: "set (take N xs) \<subseteq> S" using P(2) set_take_subset[of N xs] by blast
    have s2: "set (drop N xs) \<subseteq> S" using P(2) set_drop_subset[of N xs] by blast
    have len: "length (fst (f xs)) = N" "length (snd (f xs)) = n"
      using leaf_run_length[OF l1, of "take N xs"] P(1) len_ids by (simp_all add: f_def)
    have sets: "set (fst (f xs)) \<subseteq> S \<and> set (snd (f xs)) \<subseteq> S"
      unfolding f_def by (rule leaf_run_set[OF l1 l2 s1 s2])
    have "concat (map (path_of L) (snd (f xs))) = t" using obs[OF P(1)] P(3) by simp
    then show ?thesis using len sets by (simp add: C_def case_prod_unfold)
  qed
  have "bij_betw f A C"
    by (rule bij_betw_byWitness[where f' = g]) (use gf fg fA gC in auto)
  then have "card A = card C" by (rule bij_betw_same_card)
  then show ?thesis by (simp add: A_def C_def n_def)
qed

text \<open>
  Claim C2.  For two sequences of accesses of the same length, all with identifiers
  below \<open>block_count_N\<close>, and every pattern \<open>t\<close> of touched bucket indices, the
  probability that the engine shows \<open>t\<close> is the same for both sequences: the
  distribution of the access pattern does not depend on the operations, the
  identifiers or the payloads.
\<close>

theorem oblivious_access_pattern:
  assumes "length ops = length ops'"
    and "\<forall>(op, blk, b)\<in>set ops. blk < block_count_N L Z"
    and "\<forall>(op, blk, b)\<in>set ops'. blk < block_count_N L Z"
  shows "trace_probability L B Z ops t = trace_probability L B Z ops' t"
proof -
  let ?N = "block_count_N L Z"
  let ?S = "{leaf_dist_a..leaf_dist_b L}"
  let ?C = "\<lambda>n. {(pm, ls). length pm = ?N \<and> length ls = n \<and> set pm \<subseteq> ?S \<and> set ls \<subseteq> ?S
               \<and> concat (map (path_of L) ls) = t}"
  have "card {xs \<in> tapes L (?N + length ops). observed L B Z ops xs = t} = card (?C (length ops))"
    by (rule trace_count[OF assms(2)])
  also have "\<dots> = card (?C (length ops'))"
    unfolding assms(1) by (rule refl)
  also have "\<dots> = card {xs \<in> tapes L (?N + length ops'). observed L B Z ops' xs = t}"
    by (rule trace_count[OF assms(3), symmetric])
  finally show ?thesis
    unfolding trace_probability_def assms(1) by (rule arg_cong)
qed

subsection \<open>The probability of a pattern\<close>

lemma length_path_of: "length (path_of L leaf) = 2 * Suc L"
  by (simp add: path_of_def del: upt_Suc)

lemma path_of_inj:
  assumes L: "L \<le> 62" and l: "l < leaf_count L" "l' < leaf_count L"
    and eq: "path_of L l = path_of L l'"
  shows "l = l'"
proof -
  have nth: "path_of L x ! L = getNodeOnPath L x L" for x
    by (simp add: path_of_def nth_append del: upt_Suc)
  have "getNodeOnPath L l L = getNodeOnPath L l' L"
    using eq nth[of l] nth[of l'] by simp
  moreover have "getNodeOnPath L l L = l + 2 ^ L - 1" "getNodeOnPath L l' L = l' + 2 ^ L - 1"
    using getNodeOnPath_closed[OF L, of l L] getNodeOnPath_closed[OF L, of l' L] l
    by (simp_all add: leaf_count_def)
  ultimately have "l + 2 ^ L - 1 = l' + 2 ^ L - 1" by simp
  moreover have "(1::nat) \<le> 2 ^ L" by simp
  ultimately show ?thesis by linarith
qed

lemma concat_paths_inj:
  assumes L: "L \<le> 62" and len: "length ls = length ls'"
    and "\<forall>l\<in>set ls. l < leaf_count L" "\<forall>l\<in>set ls'. l < leaf_count L"
    and "concat (map (path_of L) ls) = concat (map (path_of L) ls')"
  shows "ls = ls'"
  using len assms(3,4,5)
proof (induction ls ls' rule: list_induct2)
  case Nil
  then show ?case by simp
next
  case (Cons x xs y ys)
  have "path_of L x @ concat (map (path_of L) xs) = path_of L y @ concat (map (path_of L) ys)"
    using Cons.prems(3) by simp
  then have p: "path_of L x = path_of L y"
    and r: "concat (map (path_of L) xs) = concat (map (path_of L) ys)"
    by (simp_all add: append_eq_append_conv length_path_of)
  have "x = y"
    using Cons.prems(1,2) by (intro path_of_inj[OF L _ _ p]) simp_all
  moreover have "xs = ys"
    using Cons.prems(1,2) by (intro Cons.IH r) simp_all
  ultimately show ?case by simp
qed

lemma trace_probability_value:
  assumes L: "L \<le> 62"
    and ids: "\<forall>(op, blk, b)\<in>set ops. blk < block_count_N L Z"
    and ls: "length ls = length ops" "\<forall>l\<in>set ls. l < leaf_count L"
  shows "trace_probability L B Z ops (concat (map (path_of L) ls))
     = 1 / real (leaf_count L ^ length ops)"
proof -
  let ?N = "block_count_N L Z"
  let ?S = "{leaf_dist_a..leaf_dist_b L}"
  let ?t = "concat (map (path_of L) ls)"
  have pos: "0 < leaf_count L" by (simp add: leaf_count_def)
  have S: "x \<in> ?S \<longleftrightarrow> x < leaf_count L" for x
    using pos by (auto simp: leaf_dist_a_def leaf_dist_b_eq)
  have "{(pm, ls'). length pm = ?N \<and> length ls' = length ops \<and> set pm \<subseteq> ?S \<and> set ls' \<subseteq> ?S
               \<and> concat (map (path_of L) ls') = ?t}
      = tapes L ?N \<times> {ls}"
  proof (intro set_eqI iffI)
    fix y
    assume y: "y \<in> {(pm, ls'). length pm = ?N \<and> length ls' = length ops \<and> set pm \<subseteq> ?S
        \<and> set ls' \<subseteq> ?S \<and> concat (map (path_of L) ls') = ?t}"
    obtain pm ls' where yy: "y = (pm, ls')" by (cases y) auto
    from y have P: "length pm = ?N" "length ls' = length ops" "set pm \<subseteq> ?S" "set ls' \<subseteq> ?S"
      "concat (map (path_of L) ls') = ?t"
      by (simp_all add: yy)
    have "\<forall>l\<in>set ls'. l < leaf_count L" using P(4) S by blast
    then have "ls' = ls"
      using concat_paths_inj[OF L _ _ ls(2) P(5)] P(2) ls(1) by simp
    then show "y \<in> tapes L ?N \<times> {ls}" using P(1,3) by (simp add: yy tapes_def)
  next
    fix y
    assume y: "y \<in> tapes L ?N \<times> {ls}"
    obtain pm ls' where yy: "y = (pm, ls')" by (cases y) auto
    have "set ls \<subseteq> ?S" using ls(2) S by blast
    then show "y \<in> {(pm, ls'). length pm = ?N \<and> length ls' = length ops \<and> set pm \<subseteq> ?S
        \<and> set ls' \<subseteq> ?S \<and> concat (map (path_of L) ls') = ?t}"
      using y ls(1) by (simp add: yy tapes_def)
  qed
  then have "card {xs \<in> tapes L (?N + length ops). observed L B Z ops xs = ?t}
      = card (tapes L ?N \<times> {ls})"
    unfolding trace_count[OF ids] by simp
  also have "\<dots> = leaf_count L ^ ?N"
    by (simp add: card_cartesian_product card_tapes)
  finally have "trace_probability L B Z ops ?t
      = real (leaf_count L ^ ?N) / real (leaf_count L ^ (?N + length ops))"
    by (simp add: trace_probability_def card_tapes)
  also have "\<dots> = 1 / real (leaf_count L ^ length ops)"
    using pos by (simp add: power_add)
  finally show ?thesis .
qed

lemma path_of_1: "path_of 1 0 = [0, 1, 1, 0]" "path_of 1 1 = [0, 2, 2, 0]"
  unfolding path_of_def upt_2 by (simp_all add: node_1)

theorem oblivious_access_pattern_witness:
  "trace_probability 1 1 1 [(Write, 0, [7]), (Read, 0, [])] [0, 1, 1, 0, 0, 2, 2, 0]
     = trace_probability 1 1 1 [(Read, 2, []), (Write, 1, [9])] [0, 1, 1, 0, 0, 2, 2, 0]
   \<and> trace_probability 1 1 1 [(Read, 2, []), (Write, 1, [9])] [0, 1, 1, 0, 0, 2, 2, 0] = 1 / 4"
proof -
  have l: "length [(Write, 0::nat, [7::8 word]), (Read, 0, [])]
      = length [(Read, 2::nat, []), (Write, 1, [9::8 word])]"
    by simp
  have a: "\<forall>(op, blk, b)\<in>set [(Write, 0::nat, [7::8 word]), (Read, 0, [])]. blk < block_count_N 1 1"
    unfolding block_count_N_1_1 by simp
  have b: "\<forall>(op, blk, b)\<in>set [(Read, 2::nat, []), (Write, 1, [9::8 word])]. blk < block_count_N 1 1"
    unfolding block_count_N_1_1 by simp
  have L: "(1::nat) \<le> 62" by simp
  have ls: "length [0::nat, 1] = length [(Read, 2::nat, []), (Write, 1, [9::8 word])]"
    "\<forall>l\<in>set [0::nat, 1]. l < leaf_count 1"
    by (simp_all add: leaf_count_def)
  have t: "concat (map (path_of 1) [0, 1]) = [0, 1, 1, 0, 0, 2, 2, 0]"
    unfolding list.map concat.simps path_of_1 by simp
  have v: "trace_probability 1 1 1 [(Read, 2, []), (Write, 1, [9])] [0, 1, 1, 0, 0, 2, 2, 0] = 1 / 4"
    using trace_probability_value[OF L b ls, of 1] unfolding t by (simp add: leaf_count_def)
  show ?thesis
    using oblivious_access_pattern[OF l a b, of 1 "[0, 1, 1, 0, 0, 2, 2, 0]"] v by blast
qed

end
